theory Spec2Isabelle
  imports Complex_Main "HOL-Library.Word" "HOL-Library.Multiset" "HOL-Library.Sublist"
    "HOL-Library.Product_Lexorder"
begin

unbundle bit_operations_syntax

section \<open>Data model\<close>

text \<open>
  Opaque byte strings are lists of 8-bit words.  A \<open>Hash\<close> is an opaque array of 32
  bytes; it is read here as the 256-bit number those bytes spell most significant byte
  first, so that the lexicographic comparison of two arrays is \<open>(<)\<close> and the bytewise
  exclusive or is \<open>XOR\<close>.  Account identifiers are numbered.  The 64-bit signed fields
  (fees, balances, sequence numbers) are integers; the places where the program relies
  on the 64-bit range are written out.
\<close>

type_synonym bytes = "8 word list"
type_synonym Hash = "256 word"
type_synonym AccountID = nat
type_synonym uint32 = "32 word"

definition INT64_MAX :: int where
  "INT64_MAX = 9223372036854775807"

definition INT64_MIN :: int where
  "INT64_MIN = - 9223372036854775808"

text \<open>
  What 64-bit signed arithmetic makes of an exact result: the number itself when it is
  within the signed 64-bit range, and the number wrapped around modulo \<open>2^64\<close> when it
  is not.
\<close>

definition wrap64 :: "int \<Rightarrow> int" where
  "wrap64 x = (x + 2 ^ 63) mod 2 ^ 64 - 2 ^ 63"

definition in_int64 :: "int \<Rightarrow> bool" where
  "in_int64 x \<longleftrightarrow> INT64_MIN \<le> x \<and> x \<le> INT64_MAX"

definition MAX_OPS_PER_TX :: nat where
  "MAX_OPS_PER_TX = 100"

datatype error = ReleaseAssert | RuntimeError | OverflowError | UndefinedBehaviour

text \<open>
  What the transaction set code reads of a transaction through the interface
  \<open>TransactionFrameBase\<close>: each field is the value of the accessor of the same name.
  \<open>getEnvelope\<close> holds the envelope in its XDR form, the bytes that
  \<open>xdr::xdr_to_opaque\<close> yields.
\<close>

record TransactionFrameBase =
  getEnvelope :: bytes
  getSourceID :: AccountID
  getFeeSourceID :: AccountID
  getSeqNum :: int
  getNumOperations :: uint32
  getFeeBid :: int

text \<open>\<open>getFullHash\<close>: the SHA-256 (the parameter \<open>sha256\<close>) of the whole envelope.\<close>

definition getFullHash :: "(bytes \<Rightarrow> Hash) \<Rightarrow> TransactionFrameBase \<Rightarrow> Hash" where
  "getFullHash sha256 tx = sha256 (getEnvelope tx)"

section \<open>AccountTransactionQueue (TxSetUtils.cpp)\<close>

record AccountTransactionQueue =
  mTxs :: "TransactionFrameBase list"
  mNumOperations :: uint32

text \<open>
  The constructor copies the vector, asserts that it is not empty, sorts it by sequence
  number and adds up the operation counts, starting from zero.
\<close>

definition newAccountTransactionQueue ::
  "TransactionFrameBase list \<Rightarrow> error + AccountTransactionQueue" where
  "newAccountTransactionQueue accountTxs =
     (if accountTxs = [] then Inl ReleaseAssert
      else Inr \<lparr> mTxs = sort_key getSeqNum accountTxs,
                 mNumOperations = fold (\<lambda>tx n. n + getNumOperations tx) accountTxs 0 \<rparr>)"

definition getTopTx :: "AccountTransactionQueue \<Rightarrow> error + TransactionFrameBase" where
  "getTopTx q = (case mTxs q of [] \<Rightarrow> Inl ReleaseAssert | tx # _ \<Rightarrow> Inr tx)"

definition popTopTx :: "AccountTransactionQueue \<Rightarrow> error + AccountTransactionQueue" where
  "popTopTx q =
     (case mTxs q of
        [] \<Rightarrow> Inl ReleaseAssert
      | tx # rest \<Rightarrow>
          Inr (q\<lparr> mNumOperations := mNumOperations q - getNumOperations tx,
                  mTxs := rest \<rparr>))"

text \<open>The invariant of the queue: sorted by sequence number, and the counter is the sum.\<close>

definition queue_inv :: "AccountTransactionQueue \<Rightarrow> bool" where
  "queue_inv q \<longleftrightarrow>
     sorted (map getSeqNum (mTxs q)) \<and>
     mNumOperations q = sum_list (map getNumOperations (mTxs q))"


section \<open>Ledger header and 128-bit helpers\<close>

record LedgerHeader =
  ledgerVersion :: nat
  ledgerSeq :: nat
  baseFee :: int
  maxTxSetSize :: nat
  feePool :: int

datatype Rounding = ROUND_DOWN | ROUND_UP

text \<open>
  Modelled from the spec: \<open>bigDivide\<close> of util/numeric is not under src.  The spec has
  the per-operation bid as the quotient rounded up; the arithmetic is 128 bits wide, so
  the product cannot overflow.  A negative argument or a divisor that is not positive
  is a failed assertion, and a quotient beyond the signed 64-bit range is an overflow
  error.
\<close>

definition bigDivide :: "int \<Rightarrow> int \<Rightarrow> int \<Rightarrow> Rounding \<Rightarrow> error + int" where
  "bigDivide A B C rounding =
     (if A < 0 \<or> B < 0 \<or> C \<le> 0 then Inl ReleaseAssert
      else
        let r = (case rounding of
                   ROUND_DOWN \<Rightarrow> (A * B) div C
                 | ROUND_UP \<Rightarrow> (A * B + C - 1) div C)
        in if INT64_MAX < r then Inl OverflowError else Inr r)"

text \<open>
  Modelled from the spec: \<open>bigMultiply\<close> of util/numeric is not under src.  It is the
  128-bit product of two non-negative 64-bit numbers; the caller's comment says that a
  negative argument makes it crash.
\<close>

definition bigMultiply :: "int \<Rightarrow> int \<Rightarrow> error + int" where
  "bigMultiply a b = (if a < 0 \<or> b < 0 then Inl ReleaseAssert else Inr (a * b))"

text \<open>
  Modelled from the spec: \<open>bigDivide128\<close> of util/numeric is not under src.  It
  divides a 128-bit number by a positive 64-bit one and reports whether the quotient fits
  the signed 64-bit range, storing it only then.
\<close>

definition bigDivide128 :: "int \<Rightarrow> int \<Rightarrow> Rounding \<Rightarrow> error + (bool \<times> int)" where
  "bigDivide128 a B rounding =
     (if B \<le> 0 then Inl ReleaseAssert
      else
        let r = (case rounding of
                   ROUND_DOWN \<Rightarrow> a div B
                 | ROUND_UP \<Rightarrow> (a + B - 1) div B)
        in Inr (r \<le> INT64_MAX, r))"

section \<open>TxSetFrame: sizes and the effective base fee (TxSetFrame.cpp)\<close>

text \<open>
  \<open>sizeOp\<close> accumulates the operation counts in a \<open>size_t\<close>; the sum of fewer than
  \<open>2^32\<close> 32-bit counts does not wrap, so it is a natural number here.
\<close>

definition sizeOp :: "TransactionFrameBase list \<Rightarrow> nat" where
  "sizeOp txs = fold (\<lambda>tx a. a + unat (getNumOperations tx)) txs 0"

definition sizeTx :: "TransactionFrameBase list \<Rightarrow> nat" where
  "sizeTx txs = length txs"

definition size_lh :: "LedgerHeader \<Rightarrow> TransactionFrameBase list \<Rightarrow> nat" where
  "size_lh lh txs = (if ledgerVersion lh \<ge> 11 then sizeOp txs else sizeTx txs)"

text \<open>The loop of \<open>getBaseFee\<close>: the state is \<open>(ops, lowBaseFee)\<close>.\<close>

fun getBaseFee_loop ::
  "TransactionFrameBase list \<Rightarrow> nat \<times> int \<Rightarrow> error + (nat \<times> int)" where
  "getBaseFee_loop [] acc = Inr acc"
| "getBaseFee_loop (txPtr # rest) (ops, lowBaseFee) =
     (let txOps = unat (getNumOperations txPtr) in
      case bigDivide (getFeeBid txPtr) 1 (int txOps) ROUND_UP of
        Inl e \<Rightarrow> Inl e
      | Inr txBaseFee \<Rightarrow> getBaseFee_loop rest (ops + txOps, min lowBaseFee txBaseFee))"

definition getBaseFee :: "TransactionFrameBase list \<Rightarrow> LedgerHeader \<Rightarrow> error + int" where
  "getBaseFee txs lh =
     (if ledgerVersion lh \<ge> 11 then
        (case getBaseFee_loop txs (0, INT64_MAX) of
           Inl e \<Rightarrow> Inl e
         | Inr (ops, lowBaseFee) \<Rightarrow>
             let surgeOpsCutoff =
                   (if maxTxSetSize lh \<ge> MAX_OPS_PER_TX
                    then maxTxSetSize lh - MAX_OPS_PER_TX else 0)
             in Inr (if ops > surgeOpsCutoff then lowBaseFee else baseFee lh))
      else Inr (baseFee lh))"

text \<open>The per-operation bid of the claims: the fee bid over the operation count, rounded up.\<close>

definition perOpBid :: "TransactionFrameBase \<Rightarrow> int" where
  "perOpBid tx = \<lceil>real_of_int (getFeeBid tx) / real_of_int (uint (getNumOperations tx))\<rceil>"

section \<open>FeeBumpTransactionFrame (FeeBumpTransactionFrame.cpp)\<close>

text \<open>
  The inner transaction is a \<open>TransactionFrame\<close>, whose implementation is not under
  src: the record holds the values of the accessors that the fee bump frame calls.
\<close>

record TransactionFrame =
  tf_isSoroban :: bool
  tf_declaredSorobanResourceFee :: int
  tf_getInclusionFee :: int
  tf_getNumOperations :: uint32

record FeeBumpTransactionFrame =
  feeBump_tx_fee :: int
  feeBump_tx_feeSource :: AccountID
  mInnerTx :: TransactionFrame

datatype TransactionResultCode =
    txFEE_BUMP_INNER_SUCCESS | txFEE_BUMP_INNER_FAILED | txNOT_SUPPORTED
  | txINSUFFICIENT_FEE | txNO_ACCOUNT | txBAD_AUTH | txBAD_AUTH_EXTRA
  | txINSUFFICIENT_BALANCE | txMALFORMED

record TransactionResult =
  feeCharged :: int
  code :: TransactionResultCode

record AccountEntry =
  balance :: int

record LedgerTxn =
  accounts :: "AccountID \<rightharpoonup> AccountEntry"
  header :: LedgerHeader

definition loadAccount :: "LedgerTxn \<Rightarrow> AccountID \<Rightarrow> AccountEntry option" where
  "loadAccount ltx accountID = accounts ltx accountID"

definition fb_getFullFee :: "FeeBumpTransactionFrame \<Rightarrow> int" where
  "fb_getFullFee fb = feeBump_tx_fee fb"

definition fb_isSoroban :: "FeeBumpTransactionFrame \<Rightarrow> bool" where
  "fb_isSoroban fb = tf_isSoroban (mInnerTx fb)"

definition fb_declaredSorobanResourceFee :: "FeeBumpTransactionFrame \<Rightarrow> int" where
  "fb_declaredSorobanResourceFee fb = tf_declaredSorobanResourceFee (mInnerTx fb)"

definition fb_getInclusionFee :: "FeeBumpTransactionFrame \<Rightarrow> int" where
  "fb_getInclusionFee fb =
     (if fb_isSoroban fb then wrap64 (fb_getFullFee fb - fb_declaredSorobanResourceFee fb)
      else fb_getFullFee fb)"

text \<open>The fee bump counts as one more operation; the count is a 32-bit unsigned number.\<close>

definition fb_getNumOperations :: "FeeBumpTransactionFrame \<Rightarrow> uint32" where
  "fb_getNumOperations fb = tf_getNumOperations (mInnerTx fb) + 1"

definition fb_getFeeSourceID :: "FeeBumpTransactionFrame \<Rightarrow> AccountID" where
  "fb_getFeeSourceID fb = feeBump_tx_feeSource fb"

text \<open>
  \<open>getFee\<close>.  The product and the sums are 64-bit signed in the program; the
  operation count is widened from 32 bits before the product is taken.
\<close>

definition fb_getFee ::
  "FeeBumpTransactionFrame \<Rightarrow> LedgerHeader \<Rightarrow> int option \<Rightarrow> bool \<Rightarrow> int" where
  "fb_getFee fb lh baseFeeOpt applying =
     (case baseFeeOpt of
        None \<Rightarrow> fb_getFullFee fb
      | Some bf \<Rightarrow>
          let flatFee = (if tf_isSoroban (mInnerTx fb)
                         then tf_declaredSorobanResourceFee (mInnerTx fb) else 0);
              adjustedFee = wrap64 (bf * max 1 (uint (fb_getNumOperations fb)))
          in if applying then wrap64 (flatFee + min (fb_getInclusionFee fb) adjustedFee)
             else wrap64 (flatFee + adjustedFee))"

text \<open>The flat part of the fee: the declared resource fee of a Soroban transaction.\<close>

definition fb_flatFee :: "FeeBumpTransactionFrame \<Rightarrow> int" where
  "fb_flatFee fb = (if fb_isSoroban fb then fb_declaredSorobanResourceFee fb else 0)"

text \<open>
  Modelled from the spec: \<open>getMinInclusionFee\<close> of TransactionUtils is not under src.
  The spec has a transaction rejected for its fee when its inclusion fee per operation
  is below \<open>max(header.baseFee, 100)\<close>, so the least inclusion fee of a transaction is
  that amount times its operation count.
\<close>

definition getMinInclusionFee :: "uint32 \<Rightarrow> LedgerHeader \<Rightarrow> int" where
  "getMinInclusionFee numOps lh = max (baseFee lh) 100 * uint numOps"

text \<open>
  \<open>commonValidPreSeqNum\<close>: the checks that do not depend on the account state.  The
  result is the returned flag with the transaction result as the function leaves it.
\<close>

definition commonValidPreSeqNum ::
  "FeeBumpTransactionFrame \<Rightarrow> LedgerTxn \<Rightarrow> TransactionResult \<Rightarrow>
     error + (bool \<times> TransactionResult)" where
  "commonValidPreSeqNum fb ltx txResult =
     (let lh = header ltx in
      if ledgerVersion lh < 13 then Inr (False, txResult\<lparr>code := txNOT_SUPPORTED\<rparr>)
      else
        let inclusionFee = fb_getInclusionFee fb;
            minInclusionFee = getMinInclusionFee (fb_getNumOperations fb) lh
        in
        if inclusionFee < minInclusionFee
        then Inr (False, txResult\<lparr>code := txINSUFFICIENT_FEE\<rparr>)
        else if tf_getInclusionFee (mInnerTx fb) < 0
        then Inr (False, txResult\<lparr>code := txFEE_BUMP_INNER_FAILED\<rparr>)
        else
          (case bigMultiply (fb_getInclusionFee fb)
                  (getMinInclusionFee (tf_getNumOperations (mInnerTx fb)) lh) of
             Inl e \<Rightarrow> Inl e
           | Inr v1 \<Rightarrow>
          (case bigMultiply (tf_getInclusionFee (mInnerTx fb))
                  (getMinInclusionFee (fb_getNumOperations fb) lh) of
             Inl e \<Rightarrow> Inl e
           | Inr v2 \<Rightarrow>
               if v1 < v2 then
                 (case bigDivide128 v2
                         (getMinInclusionFee (tf_getNumOperations (mInnerTx fb)) lh)
                         ROUND_UP of
                    Inl e \<Rightarrow> Inl e
                  | Inr (fits, r) \<Rightarrow>
                      Inr (False,
                           txResult\<lparr>feeCharged := (if fits then r else INT64_MAX),
                                     code := txINSUFFICIENT_FEE\<rparr>))
               else if loadAccount ltx (fb_getFeeSourceID fb) = None
               then Inr (False, txResult\<lparr>code := txNO_ACCOUNT\<rparr>)
               else Inr (True, txResult))))"

text \<open>
  \<open>createResultPayloadWithFeeCharged\<close>: the result starts as an inner success with
  the fee of \<open>getFee\<close>.  (The result of the inner transaction, which it wraps, plays no
  part in what follows.)
\<close>

definition createResultPayloadWithFeeCharged ::
  "FeeBumpTransactionFrame \<Rightarrow> LedgerHeader \<Rightarrow> int option \<Rightarrow> bool \<Rightarrow> TransactionResult" where
  "createResultPayloadWithFeeCharged fb lh baseFeeOpt applying =
     \<lparr> feeCharged = fb_getFee fb lh baseFeeOpt applying,
       code = txFEE_BUMP_INNER_SUCCESS \<rparr>"

text \<open>
  Modelled from the spec: \<open>addBalance\<close> of TransactionUtils is not under src.  The spec
  has the fee deducted from the balance and forbids a negative balance: the balance
  changes by the amount unless it would become negative.
\<close>

definition addBalance :: "int \<Rightarrow> int \<Rightarrow> bool \<times> int" where
  "addBalance bal delta =
     (if bal + delta < 0 then (False, bal) else (True, bal + delta))"

text \<open>
  \<open>processFeeSeqNum\<close>: the ledger state goes in and comes out.  A missing fee source
  account is the runtime error that the program throws.  The negated fee and the new fee
  pool are 64-bit signed.
\<close>

definition processFeeSeqNum ::
  "FeeBumpTransactionFrame \<Rightarrow> LedgerTxn \<Rightarrow> int option \<Rightarrow>
     error + (TransactionResult \<times> LedgerTxn)" where
  "processFeeSeqNum fb ltx baseFeeOpt =
     (let txResult = createResultPayloadWithFeeCharged fb (header ltx) baseFeeOpt True in
      case loadAccount ltx (fb_getFeeSourceID fb) of
        None \<Rightarrow> Inl RuntimeError
      | Some acc \<Rightarrow>
          if feeCharged txResult > 0 then
            let fee = min (balance acc) (feeCharged txResult);
                acc' = acc\<lparr>balance := snd (addBalance (balance acc) (wrap64 (- fee)))\<rparr>
            in Inr (txResult\<lparr>feeCharged := fee\<rparr>,
                    ltx\<lparr>accounts := (accounts ltx)(fb_getFeeSourceID fb \<mapsto> acc'),
                        header := (header ltx)\<lparr>feePool := wrap64 (feePool (header ltx) + fee)\<rparr>\<rparr>)
          else Inr (txResult, ltx))"

section \<open>TxSetFrame: canonical order and contents hash (TxSetFrame.cpp)\<close>

record TxSetFrame =
  mHashIsValid :: bool
  mHash :: Hash
  mTransactions :: "TransactionFrameBase list"
  mPreviousLedgerHash :: Hash

text \<open>The 32 bytes of a hash, as the hasher receives them: most significant byte first.\<close>

definition hash_bytes :: "Hash \<Rightarrow> bytes" where
  "hash_bytes h = map (\<lambda>i. ucast (drop_bit (8 * (31 - i)) h)) [0..<32]"

text \<open>
  The two constructors: an empty set on a previous ledger hash, and a set read from its
  XDR form, whose envelopes have been made into frames in the order of the wire form.
  Both leave the cached hash invalid.
\<close>

definition newTxSetFrame :: "Hash \<Rightarrow> TxSetFrame" where
  "newTxSetFrame previousLedgerHash =
     \<lparr> mHashIsValid = False, mHash = 0, mTransactions = [],
       mPreviousLedgerHash = previousLedgerHash \<rparr>"

definition TxSetFrame_fromXDR :: "Hash \<Rightarrow> TransactionFrameBase list \<Rightarrow> TxSetFrame" where
  "TxSetFrame_fromXDR previousLedgerHash txs =
     \<lparr> mHashIsValid = False, mHash = 0, mTransactions = txs,
       mPreviousLedgerHash = previousLedgerHash \<rparr>"

definition HashTxSorter ::
  "(bytes \<Rightarrow> Hash) \<Rightarrow> TransactionFrameBase \<Rightarrow> TransactionFrameBase \<Rightarrow> bool" where
  "HashTxSorter sha256 tx1 tx2 \<longleftrightarrow> getFullHash sha256 tx1 < getFullHash sha256 tx2"

text \<open>
  \<open>std::sort\<close> with a comparator that compares a key by \<open>(<)\<close> is a sort by that key.
  It is the insertion sort of the library here; the order that \<open>std::sort\<close> gives to
  elements of equal keys is not fixed by the language, and the properties below that
  concern the order are stated for distinct keys.
\<close>

definition sortForHash :: "(bytes \<Rightarrow> Hash) \<Rightarrow> TxSetFrame \<Rightarrow> TxSetFrame" where
  "sortForHash sha256 ts =
     ts\<lparr> mTransactions := sort_key (getFullHash sha256) (mTransactions ts),
         mHashIsValid := False \<rparr>"

text \<open>\<open>getContentsHash\<close> returns the hash and the set as the call leaves it.\<close>

definition getContentsHash :: "(bytes \<Rightarrow> Hash) \<Rightarrow> TxSetFrame \<Rightarrow> Hash \<times> TxSetFrame" where
  "getContentsHash sha256 ts =
     (if \<not> mHashIsValid ts then
        let ts1 = sortForHash sha256 ts;
            h = sha256 (hash_bytes (mPreviousLedgerHash ts1) @
                        concat (map getEnvelope (mTransactions ts1)))
        in (h, ts1\<lparr> mHash := h, mHashIsValid := True \<rparr>)
      else (mHash ts, ts))"

text \<open>\<open>removeTx\<close> erases the first occurrence, if there is one, and invalidates the hash.\<close>

definition removeTx :: "TransactionFrameBase \<Rightarrow> TxSetFrame \<Rightarrow> TxSetFrame" where
  "removeTx tx ts = ts\<lparr> mTransactions := remove1 tx (mTransactions ts), mHashIsValid := False \<rparr>"

section \<open>TxSetFrame: the apply order (TxSetFrame.cpp)\<close>

text \<open>
  Modelled from the spec: \<open>lessThanXored\<close> is not under src.  The spec has it compare
  \<open>x XOR s\<close> with \<open>y XOR s\<close> lexicographically.
\<close>

definition lessThanXored :: "Hash \<Rightarrow> Hash \<Rightarrow> Hash \<Rightarrow> bool" where
  "lessThanXored l r x \<longleftrightarrow> (l XOR x) < (r XOR x)"

definition ApplyTxSorter ::
  "(bytes \<Rightarrow> Hash) \<Rightarrow> Hash \<Rightarrow> TransactionFrameBase \<Rightarrow> TransactionFrameBase \<Rightarrow> bool" where
  "ApplyTxSorter sha256 mSetHash tx1 tx2 \<longleftrightarrow>
     lessThanXored (getFullHash sha256 tx1) (getFullHash sha256 tx2) mSetHash"

definition SeqSorter :: "TransactionFrameBase \<Rightarrow> TransactionFrameBase \<Rightarrow> bool" where
  "SeqSorter tx1 tx2 \<longleftrightarrow> getSeqNum tx1 < getSeqNum tx2"

text \<open>The key by which \<open>ApplyTxSorter\<close> compares: the full hash XORed with the set hash.\<close>

definition applyKey :: "(bytes \<Rightarrow> Hash) \<Rightarrow> Hash \<Rightarrow> TransactionFrameBase \<Rightarrow> Hash" where
  "applyKey sha256 mSetHash tx = getFullHash sha256 tx XOR mSetHash"

text \<open>
  \<open>buildAccountTxQueues\<close>.  The map from account to queue is an association list that
  keeps the accounts in the order in which they were first inserted (the order in which
  the program's hash map is walked is not fixed by the language).
\<close>

fun addToQueue ::
  "TransactionFrameBase \<Rightarrow> (AccountID \<times> TransactionFrameBase list) list \<Rightarrow>
     (AccountID \<times> TransactionFrameBase list) list" where
  "addToQueue tx [] = [(getSourceID tx, [tx])]"
| "addToQueue tx ((a, q) # rest) =
     (if a = getSourceID tx then (a, q @ [tx]) # rest else (a, q) # addToQueue tx rest)"

definition buildAccountTxQueues ::
  "TransactionFrameBase list \<Rightarrow> (AccountID \<times> TransactionFrameBase list) list" where
  "buildAccountTxQueues txs =
     map (\<lambda>(a, q). (a, sort_key getSeqNum q)) (fold addToQueue txs [])"

text \<open>
  One pass over the accounts that still have transactions: the front of every queue goes
  to the batch, and a queue that becomes empty is erased.  Taking the front of an empty
  queue is undefined in the program; it is \<open>None\<close> here.
\<close>

fun popFronts ::
  "(AccountID \<times> 'a list) list \<Rightarrow> ('a list \<times> (AccountID \<times> 'a list) list) option" where
  "popFronts [] = Some ([], [])"
| "popFronts ((a, []) # rest) = None"
| "popFronts ((a, h # t) # rest) =
     (case popFronts rest of
        None \<Rightarrow> None
      | Some (curBatch, rest') \<Rightarrow>
          Some (h # curBatch, if t = [] then rest' else (a, t) # rest'))"

definition queues_size :: "(AccountID \<times> 'a list) list \<Rightarrow> nat" where
  "queues_size qs = sum_list (map (\<lambda>(a, q). Suc (length q)) qs)"

function buildBatches :: "(AccountID \<times> 'a list) list \<Rightarrow> 'a list list option" where
  "buildBatches txQueues =
     (if txQueues = [] then Some []
      else
        (case popFronts txQueues of
           None \<Rightarrow> None
         | Some (curBatch, txQueues') \<Rightarrow>
             (case buildBatches txQueues' of
                None \<Rightarrow> None
              | Some txBatches \<Rightarrow> Some (curBatch # txBatches))))"
  by pat_completeness auto
termination
proof (relation "measure queues_size")
  show "wf (measure queues_size)"
    by simp
next
  fix txQueues :: "(AccountID \<times> 'a list) list" and x2 curBatch txQueues'
  assume ne: "txQueues \<noteq> []"
    and pop: "popFronts txQueues = Some x2" "(curBatch, txQueues') = x2"
  have smaller: "queues_size qs' < queues_size qs"
    if "popFronts qs = Some (b, qs')" "qs \<noteq> []"
    for qs qs' :: "(AccountID \<times> 'a list) list" and b
    using that
  proof (induction qs arbitrary: b qs' rule: popFronts.induct)
    case 1
    then show ?case by simp
  next
    case (2 a rest)
    then show ?case by simp
  next
    case (3 a h t rest)
    then obtain cb r where r: "popFronts rest = Some (cb, r)"
      by (auto split: option.splits)
    have "queues_size r \<le> queues_size rest"
    proof (cases "rest = []")
      case True
      with r show ?thesis by simp
    next
      case False
      with 3(1) r show ?thesis by (simp add: less_imp_le)
    qed
    with 3(2) r show ?case
      by (auto simp: queues_size_def split: if_splits)
  qed
  from pop have "popFronts txQueues = Some (curBatch, txQueues')"
    by simp
  from smaller [OF this ne] show "(txQueues', txQueues) \<in> measure queues_size"
    by simp
qed

declare buildBatches.simps [simp del]

text \<open>
  The loop over the batches: each is sorted by \<open>ApplyTxSorter\<close> on the contents hash,
  which the first call computes (sorting the set for its hash) and the later ones reuse.
\<close>

fun sortBatches ::
  "(bytes \<Rightarrow> Hash) \<Rightarrow> TransactionFrameBase list list \<Rightarrow> TxSetFrame \<Rightarrow>
     TransactionFrameBase list \<times> TxSetFrame" where
  "sortBatches sha256 [] ts = ([], ts)"
| "sortBatches sha256 (batch # txBatches) ts =
     (let (h, ts1) = getContentsHash sha256 ts;
          sorted_batch = sort_key (applyKey sha256 h) batch;
          (retList, ts2) = sortBatches sha256 txBatches ts1
      in (sorted_batch @ retList, ts2))"

definition sortForApply ::
  "(bytes \<Rightarrow> Hash) \<Rightarrow> TxSetFrame \<Rightarrow> (TransactionFrameBase list \<times> TxSetFrame) option" where
  "sortForApply sha256 ts =
     (case buildBatches (buildAccountTxQueues (mTransactions ts)) of
        None \<Rightarrow> None
      | Some txBatches \<Rightarrow> Some (sortBatches sha256 txBatches ts))"

text \<open>
  For the proofs: what the queues of \<open>buildAccountTxQueues\<close> satisfy (no queue is
  empty, a queue holds transactions of its own account only), and what a pass of
  \<open>popFronts\<close> leaves of such queues.
\<close>

definition nonempty_queues :: "(AccountID \<times> 'a list) list \<Rightarrow> bool" where
  "nonempty_queues qs \<longleftrightarrow> (\<forall>(a, q) \<in> set qs. q \<noteq> [])"

definition popped :: "(AccountID \<times> 'a list) list \<Rightarrow> (AccountID \<times> 'a list) list" where
  "popped qs = filter (\<lambda>(a, q). q \<noteq> []) (map (\<lambda>(a, q). (a, tl q)) qs)"

definition owned_queues :: "(AccountID \<times> TransactionFrameBase list) list \<Rightarrow> bool" where
  "owned_queues qs \<longleftrightarrow> (\<forall>(a, q) \<in> set qs. \<forall>t \<in> set q. getSourceID t = a)"

section \<open>TxSetFrame: validation (TxSetFrame.cpp)\<close>

text \<open>
  What \<open>checkOrTrim\<close> and \<open>checkValid\<close> read of the application.  The check of one
  transaction, \<open>tx->checkValid(ltx, lastSeq)\<close>, is implemented outside src: it is the
  parameter \<open>txCheckValid\<close>, a predicate of the transaction and the sequence number
  passed.  \<open>availableBalance\<close> stands for
  \<open>getAvailableBalance(header, loadAccount(ltx, id))\<close>, also outside src.
\<close>

record LedgerHeaderHistoryEntry =
  lcl_hash :: Hash
  lcl_header :: LedgerHeader

text \<open>
  The state of the two loops of \<open>checkOrTrim\<close>: the fee total of each fee source (a
  hash map read with \<open>operator[]\<close>, so 0 where nothing was stored), the transactions
  trimmed so far, and the set itself.
\<close>

record trim_state =
  accountFeeMap :: "AccountID \<Rightarrow> int"
  trimmed :: "TransactionFrameBase list"
  txSet :: TxSetFrame

text \<open>The running total of a fee source, which stops at \<open>INT64_MAX\<close>.\<close>

definition addFeeBid :: "TransactionFrameBase \<Rightarrow> (AccountID \<Rightarrow> int) \<Rightarrow> (AccountID \<Rightarrow> int)" where
  "addFeeBid tx fm =
     (let accFee = fm (getFeeSourceID tx) in
      fm (getFeeSourceID tx :=
            (if INT64_MAX - accFee < getFeeBid tx then INT64_MAX else accFee + getFeeBid tx)))"

text \<open>
  The first loop over one account queue.  \<open>None\<close> is the early \<open>return false\<close> of the
  checking mode; otherwise the result is the queue as the loop leaves it and the state.
\<close>

fun checkSeqs ::
  "(TransactionFrameBase \<Rightarrow> int \<Rightarrow> bool) \<Rightarrow> bool \<Rightarrow> TransactionFrameBase list \<Rightarrow> int \<Rightarrow>
     trim_state \<Rightarrow> (TransactionFrameBase list \<times> trim_state) option" where
  "checkSeqs txCheckValid justCheck [] lastSeq st = Some ([], st)"
| "checkSeqs txCheckValid justCheck (tx # rest) lastSeq st =
     (if \<not> txCheckValid tx lastSeq then
        (if justCheck then None
         else checkSeqs txCheckValid justCheck rest lastSeq
                (st\<lparr> trimmed := trimmed st @ [tx], txSet := removeTx tx (txSet st) \<rparr>))
      else
        (case checkSeqs txCheckValid justCheck rest (getSeqNum tx)
                (st\<lparr> accountFeeMap := addFeeBid tx (accountFeeMap st) \<rparr>) of
           None \<Rightarrow> None
         | Some (kept, st') \<Rightarrow> Some (tx # kept, st')))"

fun checkSeqsAll ::
  "(TransactionFrameBase \<Rightarrow> int \<Rightarrow> bool) \<Rightarrow> bool \<Rightarrow>
     (AccountID \<times> TransactionFrameBase list) list \<Rightarrow> trim_state \<Rightarrow>
     ((AccountID \<times> TransactionFrameBase list) list \<times> trim_state) option" where
  "checkSeqsAll txCheckValid justCheck [] st = Some ([], st)"
| "checkSeqsAll txCheckValid justCheck ((a, q) # accountTxMap) st =
     (case checkSeqs txCheckValid justCheck q 0 st of
        None \<Rightarrow> None
      | Some (kept, st1) \<Rightarrow>
          (case checkSeqsAll txCheckValid justCheck accountTxMap st1 of
             None \<Rightarrow> None
           | Some (rest, st2) \<Rightarrow> Some ((a, kept) # rest, st2)))"

text \<open>
  The second loop over one account queue: at the first transaction whose fee source
  cannot pay its total, the checking mode returns false and the trimming mode trims that
  transaction and all that follow it in the queue.
\<close>

fun checkFees ::
  "(AccountID \<Rightarrow> int) \<Rightarrow> bool \<Rightarrow> TransactionFrameBase list \<Rightarrow> trim_state \<Rightarrow>
     trim_state option" where
  "checkFees availableBalance justCheck [] st = Some st"
| "checkFees availableBalance justCheck (tx # rest) st =
     (let totFee = accountFeeMap st (getFeeSourceID tx) in
      if availableBalance (getFeeSourceID tx) < totFee then
        (if justCheck then None
         else Some (st\<lparr> trimmed := trimmed st @ (tx # rest),
                        txSet := fold removeTx (tx # rest) (txSet st) \<rparr>))
      else checkFees availableBalance justCheck rest st)"

fun checkFeesAll ::
  "(AccountID \<Rightarrow> int) \<Rightarrow> bool \<Rightarrow> (AccountID \<times> TransactionFrameBase list) list \<Rightarrow>
     trim_state \<Rightarrow> trim_state option" where
  "checkFeesAll availableBalance justCheck [] st = Some st"
| "checkFeesAll availableBalance justCheck ((a, q) # accountTxMap) st =
     (case checkFees availableBalance justCheck q st of
        None \<Rightarrow> None
      | Some st1 \<Rightarrow> checkFeesAll availableBalance justCheck accountTxMap st1)"

text \<open>\<open>checkOrTrim\<close> returns its flag, the trimmed transactions and the set.\<close>

definition checkOrTrim ::
  "(TransactionFrameBase \<Rightarrow> int \<Rightarrow> bool) \<Rightarrow> (AccountID \<Rightarrow> int) \<Rightarrow> TxSetFrame \<Rightarrow>
     TransactionFrameBase list \<Rightarrow> bool \<Rightarrow> bool \<times> TransactionFrameBase list \<times> TxSetFrame" where
  "checkOrTrim txCheckValid availableBalance ts trimmed0 justCheck =
     (let st0 = \<lparr> accountFeeMap = (\<lambda>a. 0), trimmed = trimmed0, txSet = ts \<rparr> in
      case checkSeqsAll txCheckValid justCheck
             (buildAccountTxQueues (mTransactions ts)) st0 of
        None \<Rightarrow> (False, trimmed0, ts)
      | Some (accountTxMap, st1) \<Rightarrow>
          (case checkFeesAll availableBalance justCheck accountTxMap st1 of
             None \<Rightarrow> (False, trimmed st1, txSet st1)
           | Some st2 \<Rightarrow> (True, trimmed st2, txSet st2)))"

definition trimInvalid ::
  "(bytes \<Rightarrow> Hash) \<Rightarrow> (TransactionFrameBase \<Rightarrow> int \<Rightarrow> bool) \<Rightarrow> (AccountID \<Rightarrow> int) \<Rightarrow>
     TxSetFrame \<Rightarrow> TransactionFrameBase list \<times> TxSetFrame" where
  "trimInvalid sha256 txCheckValid availableBalance ts =
     snd (checkOrTrim txCheckValid availableBalance (sortForHash sha256 ts) [] False)"

text \<open>\<open>std::is_sorted\<close> with a comparator: no element is less than the one before it.\<close>

fun is_sorted :: "('a \<Rightarrow> 'a \<Rightarrow> bool) \<Rightarrow> 'a list \<Rightarrow> bool" where
  "is_sorted cmp [] = True"
| "is_sorted cmp [x] = True"
| "is_sorted cmp (x # y # rest) = (\<not> cmp y x \<and> is_sorted cmp (y # rest))"

definition checkValid ::
  "(bytes \<Rightarrow> Hash) \<Rightarrow> (TransactionFrameBase \<Rightarrow> int \<Rightarrow> bool) \<Rightarrow> (AccountID \<Rightarrow> int) \<Rightarrow>
     LedgerHeaderHistoryEntry \<Rightarrow> TxSetFrame \<Rightarrow> bool" where
  "checkValid sha256 txCheckValid availableBalance lcl ts =
     (if lcl_hash lcl \<noteq> mPreviousLedgerHash ts then False
      else if size_lh (lcl_header lcl) (mTransactions ts) > maxTxSetSize (lcl_header lcl)
      then False
      else if \<not> is_sorted (HashTxSorter sha256) (mTransactions ts) then False
      else fst (checkOrTrim txCheckValid availableBalance ts [] True))"

text \<open>
  The condition (iv) of the validity claim, as the loop applies it: each transaction of
  an account queue is checked with the sequence number of the one before it, and the
  first with 0.
\<close>

fun chain_valid ::
  "(TransactionFrameBase \<Rightarrow> int \<Rightarrow> bool) \<Rightarrow> TransactionFrameBase list \<Rightarrow> int \<Rightarrow> bool" where
  "chain_valid txCheckValid [] lastSeq = True"
| "chain_valid txCheckValid (tx # rest) lastSeq =
     (txCheckValid tx lastSeq \<and> chain_valid txCheckValid rest (getSeqNum tx))"

text \<open>The sum of the fee bids of the transactions that a fee source pays for.\<close>

definition feeBidSum :: "TransactionFrameBase list \<Rightarrow> AccountID \<Rightarrow> int" where
  "feeBidSum txs a = sum_list (map getFeeBid (filter (\<lambda>t. getFeeSourceID t = a) txs))"

section \<open>TxSetFrame: surge pricing (TxSetFrame.cpp)\<close>

text \<open>
  Modelled from the spec: \<open>getMinFee(header)\<close> of the transaction frames is not under
  src.  It is the least fee of the transaction: the least fee per operation of the
  header times the operation count, as \<open>getMinInclusionFee\<close>.
\<close>

definition getMinFee :: "LedgerHeader \<Rightarrow> TransactionFrameBase \<Rightarrow> int" where
  "getMinFee lh tx = getMinInclusionFee (getNumOperations tx) lh"

text \<open>
  \<open>SurgeCompare\<close>: \<open>True\<close> when the first queue has lower priority than the second.
  The arguments are pointers to queues, \<open>None\<close> for a null pointer.  The two products
  are taken by \<open>bigMultiply\<close>, which fails on a negative fee bid or least fee.
\<close>

fun SurgeCompare ::
  "(bytes \<Rightarrow> Hash) \<Rightarrow> Hash \<Rightarrow> LedgerHeader \<Rightarrow>
     TransactionFrameBase list option \<Rightarrow> TransactionFrameBase list option \<Rightarrow> error + bool" where
  "SurgeCompare sha256 mSeed mHeader None tx2 =
     Inr (case tx2 of None \<Rightarrow> False | Some q2 \<Rightarrow> q2 \<noteq> [])"
| "SurgeCompare sha256 mSeed mHeader (Some []) tx2 =
     Inr (case tx2 of None \<Rightarrow> False | Some q2 \<Rightarrow> q2 \<noteq> [])"
| "SurgeCompare sha256 mSeed mHeader (Some (top1 # r1)) None = Inr False"
| "SurgeCompare sha256 mSeed mHeader (Some (top1 # r1)) (Some []) = Inr False"
| "SurgeCompare sha256 mSeed mHeader (Some (top1 # r1)) (Some (top2 # r2)) =
     (case bigMultiply (getFeeBid top1) (getMinFee mHeader top2) of
        Inl e \<Rightarrow> Inl e
      | Inr v1 \<Rightarrow>
     (case bigMultiply (getFeeBid top2) (getMinFee mHeader top1) of
        Inl e \<Rightarrow> Inl e
      | Inr v2 \<Rightarrow>
          if v1 < v2 then Inr True
          else if v1 > v2 then Inr False
          else Inr (lessThanXored (getFullHash sha256 top1) (getFullHash sha256 top2) mSeed)))"

text \<open>
  \<open>std::priority_queue\<close>: \<open>top\<close> is an element that no element of the queue exceeds
  under the comparator.  The queue is the list of its elements here, and \<open>top\<close> is
  found by a scan that keeps the greatest element seen and stops at a comparison that
  fails; \<open>pop\<close> removes that element and \<open>push\<close> adds one.  (Which pairs the library
  compares, and when, is its own business: the scan compares every element of a queue
  of two or more at least once.)  \<open>top\<close> of an empty queue is undefined in the program.
\<close>

fun pq_scan :: "('a \<Rightarrow> 'a \<Rightarrow> error + bool) \<Rightarrow> 'a \<Rightarrow> 'a list \<Rightarrow> error + 'a" where
  "pq_scan cmp best [] = Inr best"
| "pq_scan cmp best (x # xs) =
     (case cmp best x of
        Inl e \<Rightarrow> Inl e
      | Inr lower \<Rightarrow> pq_scan cmp (if lower then x else best) xs)"

definition pq_top :: "('a \<Rightarrow> 'a \<Rightarrow> error + bool) \<Rightarrow> 'a list \<Rightarrow> error + 'a" where
  "pq_top cmp heap = (case heap of [] \<Rightarrow> Inl UndefinedBehaviour | x # xs \<Rightarrow> pq_scan cmp x xs)"

definition pq_pop :: "'a \<Rightarrow> 'a list \<Rightarrow> 'a list" where
  "pq_pop cur heap = remove1 cur heap"

definition pq_push :: "'a \<Rightarrow> 'a list \<Rightarrow> 'a list" where
  "pq_push x heap = heap @ [x]"

text \<open>
  The loop of \<open>surgePricingFilter\<close>.  The elements of the priority queue are the
  entries of the account map (the program holds pointers to their queues).  The state
  is the operations left, the priority queue and the transactions accepted so far;
  \<open>opsOf\<close> is the operation count that the loop charges for a transaction.  Taking the
  front of an empty queue is undefined in the program.
\<close>

function surgeLoop ::
  "((AccountID \<times> TransactionFrameBase list) \<Rightarrow>
      (AccountID \<times> TransactionFrameBase list) \<Rightarrow> error + bool) \<Rightarrow>
   (TransactionFrameBase \<Rightarrow> nat) \<Rightarrow>
   nat \<times> (AccountID \<times> TransactionFrameBase list) list \<times> TransactionFrameBase list \<Rightarrow>
   error + TransactionFrameBase list" where
  "surgeLoop cmp opsOf (opsLeft, surgeQueue, updatedSet) =
     (if opsLeft > 0 \<and> surgeQueue \<noteq> [] then
        (case pq_top cmp surgeQueue of
           Inl e \<Rightarrow> Inl e
         | Inr cur \<Rightarrow>
             (case snd cur of
                [] \<Rightarrow> Inl UndefinedBehaviour
              | curTopTx # rest \<Rightarrow>
                  let opsCount = opsOf curTopTx in
                  if opsCount \<le> opsLeft then
                    surgeLoop cmp opsOf
                      (opsLeft - opsCount,
                       (if rest \<noteq> [] then pq_push (fst cur, rest) (pq_pop cur surgeQueue)
                        else pq_pop cur surgeQueue),
                       updatedSet @ [curTopTx])
                  else surgeLoop cmp opsOf (opsLeft, pq_pop cur surgeQueue, updatedSet)))
      else Inr updatedSet)"
  by pat_completeness auto
termination
proof -
  have scan: "pq_scan cmp b xs = Inr r \<Longrightarrow> r \<in> set (b # xs)"
    for cmp and b r :: "AccountID \<times> TransactionFrameBase list" and xs
    by (induction xs arbitrary: b) (auto split: sum.splits if_splits)
  have rm: "queues_size (remove1 p qs) + Suc (length (snd p)) = queues_size qs"
    if "p \<in> set qs" for p :: "AccountID \<times> TransactionFrameBase list" and qs
    using that by (induction qs) (auto simp: queues_size_def case_prod_unfold)
  have dec: "queues_size (pq_pop cur q) + Suc (length (snd cur)) = queues_size q"
    if "pq_top cmp q = Inr cur"
    for cmp and cur :: "AccountID \<times> TransactionFrameBase list" and q
  proof -
    from that have "cur \<in> set q"
      using scan by (auto simp: pq_top_def split: list.splits)
    from rm [OF this] show ?thesis by (simp add: pq_pop_def)
  qed
  have push: "queues_size (pq_push p q) = queues_size q + Suc (length (snd p))"
    for p :: "AccountID \<times> TransactionFrameBase list" and q
    by (simp add: pq_push_def queues_size_def case_prod_unfold)
  show ?thesis
  proof (relation "measure (\<lambda>(cmp, opsOf, opsLeft, surgeQueue, updatedSet). queues_size surgeQueue)",
      goal_cases)
    case 1
    show ?case by simp
  next
    case (2 cmp opsOf opsLeft surgeQueue updatedSet cur curTopTx rest opsCount)
    from dec [OF 2(2)] 2(3) show ?case
      by (simp add: push)
  next
    case (3 cmp opsOf opsLeft surgeQueue updatedSet cur curTopTx rest opsCount)
    from dec [OF 3(2)] 3(3) show ?case
      by simp
  qed
qed

declare surgeLoop.simps [simp del]

text \<open>
  \<open>surgePricingFilter\<close>.  \<open>opsLeft0\<close> is the value of \<open>getLastMaxTxSetSizeOps\<close>,
  \<open>mSeed\<close> the random seed that \<open>SurgeCompare\<close> draws, and \<open>lh\<close> the header that the
  function loads.
\<close>

definition opsOf_surge :: "LedgerHeader \<Rightarrow> TransactionFrameBase \<Rightarrow> nat" where
  "opsOf_surge lh tx =
     (if ledgerVersion lh \<ge> 11 then unat (getNumOperations tx) else MAX_OPS_PER_TX)"

definition surgePricingFilter ::
  "(bytes \<Rightarrow> Hash) \<Rightarrow> Hash \<Rightarrow> nat \<Rightarrow> LedgerHeader \<Rightarrow> TxSetFrame \<Rightarrow> error + TxSetFrame" where
  "surgePricingFilter sha256 mSeed opsLeft0 lh ts =
     (let maxIsOps = (ledgerVersion lh \<ge> 11);
          curSizeOps = (if maxIsOps then sizeOp (mTransactions ts)
                        else sizeTx (mTransactions ts) * MAX_OPS_PER_TX)
      in if curSizeOps > opsLeft0 then
           (case surgeLoop
                   (\<lambda>q1 q2. SurgeCompare sha256 mSeed lh (Some (snd q1)) (Some (snd q2)))
                   (opsOf_surge lh)
                   (opsLeft0, buildAccountTxQueues (mTransactions ts), []) of
              Inl e \<Rightarrow> Inl e
            | Inr updatedSet \<Rightarrow> Inr (sortForHash sha256 (ts\<lparr> mTransactions := updatedSet \<rparr>)))
         else Inr ts)"

text \<open>
  The selection as C2 describes it, to compare the program with.  The parameters are the
  priority of a transaction and the charge for it; the relation holds of a budget, the
  set of the account queues that are left (each with its account), and the transactions
  accepted from there on, in the order of acceptance.  While the budget is positive and
  a queue is left, a queue whose front transaction has the highest priority is taken
  out: if the charge for its front is within the budget, the front is accepted, the
  charge comes off the budget and the rest of the queue, if any, goes back; if not, the
  whole queue is dropped.
\<close>

inductive surge_select ::
  "(TransactionFrameBase \<Rightarrow> 'k::linorder) \<Rightarrow> (TransactionFrameBase \<Rightarrow> nat) \<Rightarrow> nat \<Rightarrow>
   (AccountID \<times> TransactionFrameBase list) set \<Rightarrow> TransactionFrameBase list \<Rightarrow> bool"
  for priority and charge where
  stop: "budget = 0 \<or> queues = {} \<Longrightarrow> surge_select priority charge budget queues []"
| accept:
    "0 < budget \<Longrightarrow> (a, t # rest) \<in> queues \<Longrightarrow>
     \<forall>(b, q) \<in> queues. priority (hd q) \<le> priority t \<Longrightarrow>
     charge t \<le> budget \<Longrightarrow>
     surge_select priority charge (budget - charge t)
       (queues - {(a, t # rest)} \<union> (if rest = [] then {} else {(a, rest)})) accepted \<Longrightarrow>
     surge_select priority charge budget queues (t # accepted)"
| clear:
    "0 < budget \<Longrightarrow> (a, t # rest) \<in> queues \<Longrightarrow>
     \<forall>(b, q) \<in> queues. priority (hd q) \<le> priority t \<Longrightarrow>
     \<not> charge t \<le> budget \<Longrightarrow>
     surge_select priority charge budget (queues - {(a, t # rest)}) accepted \<Longrightarrow>
     surge_select priority charge budget queues accepted"

text \<open>
  The account queues of a list of transactions: for every source account, its
  transactions in ascending order of sequence number.
\<close>

definition account_queues ::
  "TransactionFrameBase list \<Rightarrow> (AccountID \<times> TransactionFrameBase list) set" where
  "account_queues txs =
     (\<lambda>a. (a, sort_key getSeqNum (filter (\<lambda>t. getSourceID t = a) txs))) ` getSourceID ` set txs"

text \<open>
  The priority that \<open>SurgeCompare\<close> stands for: the ratio of fee bid to least fee, and
  among equal ratios the full hash XORed with the seed.
\<close>

definition surge_key ::
  "(bytes \<Rightarrow> Hash) \<Rightarrow> Hash \<Rightarrow> LedgerHeader \<Rightarrow> TransactionFrameBase \<Rightarrow> real \<times> Hash" where
  "surge_key sha256 mSeed lh tx =
     (real_of_int (getFeeBid tx) / real_of_int (getMinFee lh tx), getFullHash sha256 tx XOR mSeed)"

text \<open>
  For the proofs: the queue that an account still has in the priority queue, and the
  invariant of the loop (the queues are non-empty, one per account, and hold
  transactions of their account with a fee bid that is not negative and at least one
  operation; the accepted transactions of an account, followed by what its queue still
  holds, are a prefix of its original queue; the operations charged and the operations
  left add up to the budget).
\<close>

definition remaining ::
  "(AccountID \<times> TransactionFrameBase list) list \<Rightarrow> AccountID \<Rightarrow> TransactionFrameBase list" where
  "remaining heap a = (case map_of heap a of None \<Rightarrow> [] | Some q \<Rightarrow> q)"

definition sound_bids :: "(AccountID \<times> TransactionFrameBase list) list \<Rightarrow> bool" where
  "sound_bids heap \<longleftrightarrow>
     (\<forall>(a, q) \<in> set heap. \<forall>t \<in> set q. 0 \<le> getFeeBid t \<and> getNumOperations t \<noteq> 0)"

definition surge_inv ::
  "(TransactionFrameBase \<Rightarrow> nat) \<Rightarrow> (AccountID \<Rightarrow> TransactionFrameBase list) \<Rightarrow> nat \<Rightarrow>
   nat \<times> (AccountID \<times> TransactionFrameBase list) list \<times> TransactionFrameBase list \<Rightarrow> bool" where
  "surge_inv opsOf orig budget s \<longleftrightarrow>
     (case s of (opsLeft, heap, acc) \<Rightarrow>
        nonempty_queues heap \<and> distinct (map fst heap) \<and> owned_queues heap \<and>
        sound_bids heap \<and>
        (\<forall>a. prefix (filter (\<lambda>t. getSourceID t = a) acc @ remaining heap a) (orig a)) \<and>
        sum_list (map opsOf acc) + opsLeft = budget)"

section \<open>InvokeHostFunctionOpFrame: gathering the footprint (InvokeHostFunctionOpFrame.cpp)\<close>

datatype LedgerEntryType =
    ACCOUNT | TRUSTLINE | OFFER | DATA | CLAIMABLE_BALANCE | LIQUIDITY_POOL
  | CONTRACT_DATA | CONTRACT_CODE | CONFIG_SETTING | EXPIRATION

datatype ContractDataDurability = TEMPORARY | PERSISTENT

text \<open>
  A ledger key: its type, the durability (of a contract data key), what else identifies
  the entry, and the size of its XDR form.  A ledger entry: the type of its data, the
  expiration ledger (of an expiration entry), its XDR form, and the XDR form of its
  expiration data (of an expiration entry).
\<close>

record LedgerKey =
  lk_type :: LedgerEntryType
  lk_durability :: ContractDataDurability
  lk_id :: nat
  lk_xdr_size :: nat

record LedgerEntry =
  le_type :: LedgerEntryType
  expirationLedgerSeq :: nat
  le_xdr :: bytes
  expiration_xdr :: bytes

definition isCodeKey :: "LedgerKey \<Rightarrow> bool" where
  "isCodeKey lk \<longleftrightarrow> lk_type lk = CONTRACT_CODE"

text \<open>
  Modelled from the spec: \<open>isSorobanEntry\<close>, \<open>isTemporaryEntry\<close> and \<open>isLive\<close> are not
  under src.  The spec has an expiration entry loaded for the persistent and temporary
  contract entries (contract data and contract code), and has an entry expired when its
  expiration ledger is below the current ledger sequence number.
\<close>

definition isSorobanEntry :: "LedgerEntry \<Rightarrow> bool" where
  "isSorobanEntry le \<longleftrightarrow> le_type le = CONTRACT_DATA \<or> le_type le = CONTRACT_CODE"

definition isTemporaryEntry :: "LedgerKey \<Rightarrow> bool" where
  "isTemporaryEntry lk \<longleftrightarrow> lk_type lk = CONTRACT_DATA \<and> lk_durability lk = TEMPORARY"

definition isLive :: "LedgerEntry \<Rightarrow> nat \<Rightarrow> bool" where
  "isLive e seq \<longleftrightarrow> \<not> expirationLedgerSeq e < seq"

datatype InvokeHostFunctionResultCode =
    INVOKE_HOST_FUNCTION_SUCCESS | INVOKE_HOST_FUNCTION_MALFORMED
  | INVOKE_HOST_FUNCTION_TRAPPED | INVOKE_HOST_FUNCTION_RESOURCE_LIMIT_EXCEEDED
  | INVOKE_HOST_FUNCTION_ENTRY_EXPIRED | INVOKE_HOST_FUNCTION_INSUFFICIENT_REFUNDABLE_FEE

text \<open>The counters of \<open>HostFunctionMetrics\<close> that reading touches; all are 32 bits wide.\<close>

record HostFunctionMetrics =
  mReadEntry :: uint32
  mReadKeyByte :: uint32
  mLedgerReadByte :: uint32
  mReadDataByte :: uint32
  mReadCodeByte :: uint32
  mMaxReadWriteKeyByte :: uint32
  mMaxReadWriteDataByte :: uint32
  mMaxReadWriteCodeByte :: uint32

definition noteReadEntry ::
  "bool \<Rightarrow> uint32 \<Rightarrow> uint32 \<Rightarrow> HostFunctionMetrics \<Rightarrow> HostFunctionMetrics" where
  "noteReadEntry isCodeEntry keySize entrySize m =
     (let m1 = m\<lparr> mReadEntry := mReadEntry m + 1,
                  mReadKeyByte := mReadKeyByte m + keySize,
                  mMaxReadWriteKeyByte := max (mMaxReadWriteKeyByte m) keySize,
                  mLedgerReadByte := mLedgerReadByte m + entrySize \<rparr>
      in if isCodeEntry
         then m1\<lparr> mReadCodeByte := mReadCodeByte m1 + entrySize,
                  mMaxReadWriteCodeByte := max (mMaxReadWriteCodeByte m1) entrySize \<rparr>
         else m1\<lparr> mReadDataByte := mReadDataByte m1 + entrySize,
                  mMaxReadWriteDataByte := max (mMaxReadWriteDataByte m1) entrySize \<rparr>)"

text \<open>
  What gathering reads: the ledger (\<open>loadWithoutRecord\<close> is a lookup), the ledger
  sequence number of the header, the byte budget of the footprint, and
  \<open>getExpirationKey\<close>, which is not under src and stays a parameter.
\<close>

record GatherEnv =
  entries :: "LedgerKey \<rightharpoonup> LedgerEntry"
  header_ledgerSeq :: nat
  resources_readBytes :: uint32
  getExpirationKey :: "LedgerKey \<Rightarrow> LedgerKey"

text \<open>
  What gathering builds: the buffers of entries and of expiration data that go to the
  host, and the metrics.  The diagnostic event pushed when the byte budget is exceeded
  is left out.
\<close>

record GatherState =
  ledgerEntryCxxBufs :: "bytes list"
  expirationEntryCxxBufs :: "bytes list"
  metrics :: HostFunctionMetrics

text \<open>
  The three ways a step can end: an exception (a failed \<open>releaseAssertOrThrow\<close>),
  \<open>return false\<close> with the result code set, or going on with a new state.
\<close>

datatype 'a outcome = Threw error | ReturnedFalse InvokeHostFunctionResultCode | Continue 'a

text \<open>The body of the loop of \<open>addReads\<close>, for one key.\<close>

definition addRead :: "GatherEnv \<Rightarrow> LedgerKey \<Rightarrow> GatherState \<Rightarrow> GatherState outcome" where
  "addRead env lk st =
     (let keySize = (of_nat (lk_xdr_size lk) :: uint32);
          finish = (\<lambda>entrySize st1.
             let m = noteReadEntry (isCodeKey lk) keySize entrySize (metrics st1) in
             if resources_readBytes env < mLedgerReadByte m
             then ReturnedFalse INVOKE_HOST_FUNCTION_RESOURCE_LIMIT_EXCEEDED
             else Continue (st1\<lparr> metrics := m \<rparr>));
          add = (\<lambda>le expirationEntry.
             let leBuf = le_xdr le;
                 expirationBuf = (case expirationEntry of
                                    Some e \<Rightarrow> expiration_xdr e | None \<Rightarrow> []);
                 entrySize = (of_nat (length leBuf) :: uint32) +
                             (case expirationEntry of
                                Some e \<Rightarrow> of_nat (length expirationBuf) | None \<Rightarrow> 0)
             in finish entrySize
                  (st\<lparr> ledgerEntryCxxBufs := ledgerEntryCxxBufs st @ [leBuf],
                       expirationEntryCxxBufs := expirationEntryCxxBufs st @ [expirationBuf] \<rparr>))
      in case entries env lk of
           None \<Rightarrow> finish 0 st
         | Some le \<Rightarrow>
             if isSorobanEntry le then
               (case entries env (getExpirationKey env lk) of
                  None \<Rightarrow> Threw ReleaseAssert
                | Some expirationLe \<Rightarrow>
                    if \<not> isLive expirationLe (header_ledgerSeq env) then
                      (if isTemporaryEntry lk then finish 0 st
                       else ReturnedFalse INVOKE_HOST_FUNCTION_ENTRY_EXPIRED)
                    else add le (Some expirationLe))
             else add le None)"

fun addReads :: "GatherEnv \<Rightarrow> LedgerKey list \<Rightarrow> GatherState \<Rightarrow> GatherState outcome" where
  "addReads env [] st = Continue st"
| "addReads env (lk # keys) st =
     (case addRead env lk st of
        Threw e \<Rightarrow> Threw e
      | ReturnedFalse c \<Rightarrow> ReturnedFalse c
      | Continue st1 \<Rightarrow> addReads env keys st1)"

definition emptyMetrics :: HostFunctionMetrics where
  "emptyMetrics =
     \<lparr> mReadEntry = 0, mReadKeyByte = 0, mLedgerReadByte = 0, mReadDataByte = 0,
       mReadCodeByte = 0, mMaxReadWriteKeyByte = 0, mMaxReadWriteDataByte = 0,
       mMaxReadWriteCodeByte = 0 \<rparr>"

definition emptyGather :: GatherState where
  "emptyGather =
     \<lparr> ledgerEntryCxxBufs = [], expirationEntryCxxBufs = [], metrics = emptyMetrics \<rparr>"

text \<open>
  \<open>doApply\<close> up to the call of the host: the read-only keys are gathered, then the
  read-write keys.  \<open>Continue st\<close> is the point where \<open>invoke_host_function\<close> is
  called, with the buffers of \<open>st\<close>; the other two outcomes leave \<open>doApply\<close> before
  that call.  What \<open>doApply\<close> does with the output of the host is not part of this
  model.
\<close>

definition doApply_gather ::
  "GatherEnv \<Rightarrow> LedgerKey list \<Rightarrow> LedgerKey list \<Rightarrow> GatherState outcome" where
  "doApply_gather env footprint_readOnly footprint_readWrite =
     (case addReads env footprint_readOnly emptyGather of
        Threw e \<Rightarrow> Threw e
      | ReturnedFalse c \<Rightarrow> ReturnedFalse c
      | Continue st1 \<Rightarrow> addReads env footprint_readWrite st1)"

section \<open>Example inputs\<close>

text \<open>A stand-in for SHA-256 in the examples: the first byte of the input.\<close>

definition ex_sha :: "bytes \<Rightarrow> Hash" where
  "ex_sha bs = (case bs of [] \<Rightarrow> 0 | b # _ \<Rightarrow> ucast b)"

definition ex_lh10 :: LedgerHeader where
  "ex_lh10 = \<lparr>ledgerVersion = 10, ledgerSeq = 7, baseFee = 100, maxTxSetSize = 100, feePool = 0\<rparr>"

definition ex_lh20 :: LedgerHeader where
  "ex_lh20 = \<lparr>ledgerVersion = 20, ledgerSeq = 7, baseFee = 100, maxTxSetSize = 100, feePool = 0\<rparr>"

definition ex_tx500 :: TransactionFrameBase where
  "ex_tx500 = \<lparr>getEnvelope = [5], getSourceID = 1, getFeeSourceID = 1, getSeqNum = 1,
      getNumOperations = 1, getFeeBid = 500\<rparr>"

definition ex_tx101 :: TransactionFrameBase where
  "ex_tx101 = \<lparr>getEnvelope = [9], getSourceID = 2, getFeeSourceID = 3, getSeqNum = 1,
      getNumOperations = 2, getFeeBid = 101\<rparr>"

definition ex_tx300 :: TransactionFrameBase where
  "ex_tx300 = \<lparr>getEnvelope = [6], getSourceID = 1, getFeeSourceID = 1, getSeqNum = 2,
      getNumOperations = 1, getFeeBid = 300\<rparr>"

definition ex_fb400 :: FeeBumpTransactionFrame where
  "ex_fb400 = \<lparr>feeBump_tx_fee = 400, feeBump_tx_feeSource = 3,
      mInnerTx = \<lparr>tf_isSoroban = False, tf_declaredSorobanResourceFee = 0,
                   tf_getInclusionFee = 200, tf_getNumOperations = 1\<rparr>\<rparr>"

definition ex_tx201 :: TransactionFrameBase where
  "ex_tx201 = \<lparr>getEnvelope = [9], getSourceID = 2, getFeeSourceID = 3, getSeqNum = 1,
      getNumOperations = 2, getFeeBid = 201\<rparr>"

definition ex_fb201 :: FeeBumpTransactionFrame where
  "ex_fb201 = \<lparr>feeBump_tx_fee = 201, feeBump_tx_feeSource = 3,
      mInnerTx = \<lparr>tf_isSoroban = False, tf_declaredSorobanResourceFee = 0,
                   tf_getInclusionFee = 100, tf_getNumOperations = 1\<rparr>\<rparr>"

definition ex_fb399 :: FeeBumpTransactionFrame where
  "ex_fb399 = \<lparr>feeBump_tx_fee = 399, feeBump_tx_feeSource = 3,
      mInnerTx = \<lparr>tf_isSoroban = False, tf_declaredSorobanResourceFee = 0,
                   tf_getInclusionFee = 200, tf_getNumOperations = 1\<rparr>\<rparr>"

definition ex_ltx :: LedgerTxn where
  "ex_ltx = \<lparr>accounts = [3 \<mapsto> \<lparr>balance = 250\<rparr>], header = ex_lh20\<rparr>"

definition ex_ltx_full :: LedgerTxn where
  "ex_ltx_full = \<lparr>accounts = [3 \<mapsto> \<lparr>balance = 1000\<rparr>],
                   header = ex_lh20\<lparr>feePool := INT64_MAX - 399\<rparr>\<rparr>"

definition ex_res0 :: TransactionResult where
  "ex_res0 = \<lparr>feeCharged = 200, code = txFEE_BUMP_INNER_SUCCESS\<rparr>"

definition ex_chk :: "TransactionFrameBase \<Rightarrow> int \<Rightarrow> bool" where
  "ex_chk tx lastSeq \<longleftrightarrow> lastSeq < getSeqNum tx"

definition ex_avail :: "AccountID \<Rightarrow> int" where
  "ex_avail a = 1000"

definition ex_lcl20 :: LedgerHeaderHistoryEntry where
  "ex_lcl20 = \<lparr>lcl_hash = 7, lcl_header = ex_lh20\<rparr>"

definition ex_lcl10 :: LedgerHeaderHistoryEntry where
  "ex_lcl10 = \<lparr>lcl_hash = 7, lcl_header = ex_lh10\<lparr>maxTxSetSize := 1\<rparr>\<rparr>"

definition ex_sa :: TransactionFrameBase where
  "ex_sa = \<lparr>getEnvelope = [21], getSourceID = 11, getFeeSourceID = 11, getSeqNum = 1,
      getNumOperations = 1, getFeeBid = 1000\<rparr>"

definition ex_sa2 :: TransactionFrameBase where
  "ex_sa2 = \<lparr>getEnvelope = [24], getSourceID = 11, getFeeSourceID = 11, getSeqNum = 2,
      getNumOperations = 2, getFeeBid = 2000\<rparr>"

definition ex_sb :: TransactionFrameBase where
  "ex_sb = \<lparr>getEnvelope = [22], getSourceID = 12, getFeeSourceID = 12, getSeqNum = 1,
      getNumOperations = 1, getFeeBid = 500\<rparr>"

definition ex_sc :: TransactionFrameBase where
  "ex_sc = \<lparr>getEnvelope = [23], getSourceID = 13, getFeeSourceID = 13, getSeqNum = 1,
      getNumOperations = 99, getFeeBid = 9900\<rparr>"


definition ex_sneg :: TransactionFrameBase where
  "ex_sneg = \<lparr>getEnvelope = [25], getSourceID = 12, getFeeSourceID = 12, getSeqNum = 1,
      getNumOperations = 1, getFeeBid = - 5\<rparr>"

text \<open>A footprint: an account, and two contract data entries whose expiration ledger
  is behind the header.\<close>

definition ex_ka :: LedgerKey where
  "ex_ka = \<lparr> lk_type = ACCOUNT, lk_durability = PERSISTENT, lk_id = 3, lk_xdr_size = 36 \<rparr>"

definition ex_kp :: LedgerKey where
  "ex_kp = \<lparr> lk_type = CONTRACT_DATA, lk_durability = PERSISTENT, lk_id = 5, lk_xdr_size = 40 \<rparr>"

definition ex_kt :: LedgerKey where
  "ex_kt = \<lparr> lk_type = CONTRACT_DATA, lk_durability = TEMPORARY, lk_id = 6, lk_xdr_size = 40 \<rparr>"

definition ex_expirationKey :: "LedgerKey \<Rightarrow> LedgerKey" where
  "ex_expirationKey lk =
     \<lparr> lk_type = EXPIRATION, lk_durability = PERSISTENT, lk_id = lk_id lk, lk_xdr_size = 36 \<rparr>"

definition ex_account :: LedgerEntry where
  "ex_account = \<lparr> le_type = ACCOUNT, expirationLedgerSeq = 0, le_xdr = [7, 7, 7], expiration_xdr = [] \<rparr>"

definition ex_data :: LedgerEntry where
  "ex_data = \<lparr> le_type = CONTRACT_DATA, expirationLedgerSeq = 0, le_xdr = [8, 8], expiration_xdr = [] \<rparr>"

definition ex_expired :: LedgerEntry where
  "ex_expired = \<lparr> le_type = EXPIRATION, expirationLedgerSeq = 9, le_xdr = [4], expiration_xdr = [9] \<rparr>"

definition ex_env :: GatherEnv where
  "ex_env = \<lparr> entries = map_of [(ex_ka, ex_account), (ex_kp, ex_data), (ex_kt, ex_data),
                                  (ex_expirationKey ex_kp, ex_expired),
                                  (ex_expirationKey ex_kt, ex_expired)],
              header_ledgerSeq = 10, resources_readBytes = 1000,
              getExpirationKey = ex_expirationKey \<rparr>"

definition ex_st :: GatherState where
  "ex_st = \<lparr> ledgerEntryCxxBufs = [[7, 7, 7]], expirationEntryCxxBufs = [[]],
     metrics = \<lparr> mReadEntry = 1, mReadKeyByte = 36, mLedgerReadByte = 3, mReadDataByte = 3,
       mReadCodeByte = 0, mMaxReadWriteKeyByte = 36, mMaxReadWriteDataByte = 3,
       mMaxReadWriteCodeByte = 0 \<rparr> \<rparr>"

definition ex_st2 :: GatherState where
  "ex_st2 = \<lparr> ledgerEntryCxxBufs = [[7, 7, 7]], expirationEntryCxxBufs = [[]],
     metrics = \<lparr> mReadEntry = 2, mReadKeyByte = 76, mLedgerReadByte = 3, mReadDataByte = 3,
       mReadCodeByte = 0, mMaxReadWriteKeyByte = 40, mMaxReadWriteDataByte = 3,
       mMaxReadWriteCodeByte = 0 \<rparr> \<rparr>"

section \<open>The contents hash is canonical\<close>

lemma map_insort_key:
  "map f (insort_key (\<lambda>x. g (f x)) x xs) = insort_key g (f x) (map f xs)"
  by (induction xs) simp_all

lemma map_sort_key:
  "map f (sort_key (\<lambda>x. g (f x)) xs) = sort_key g (map f xs)"
  by (induction xs) (simp_all add: map_insort_key)

lemma envelopes_sortForHash:
  "map getEnvelope (mTransactions (sortForHash sha256 ts)) =
     sort_key sha256 (map getEnvelope (mTransactions ts))"
  by (simp add: sortForHash_def getFullHash_def [abs_def] map_sort_key)

lemma getContentsHash_fresh:
  "\<not> mHashIsValid ts \<Longrightarrow>
   fst (getContentsHash sha256 ts) =
     sha256 (hash_bytes (mPreviousLedgerHash ts) @
             concat (sort_key sha256 (map getEnvelope (mTransactions ts))))"
  by (simp add: getContentsHash_def Let_def envelopes_sortForHash)
     (simp add: sortForHash_def)

lemma sort_key_mset_inj:
  assumes "mset ys = mset xs" "inj_on f (set xs)"
  shows "sort_key f ys = sort_key f xs"
proof -
  have "sort_key f xs = sort_key f ys"
    by (rule sort_key_inj_key_eq) (use assms in simp_all)
  then show ?thesis by simp
qed

lemma getContentsHash_perm:
  assumes "inj_on sha256 (getEnvelope ` set txs)"
    and "mset (map getEnvelope txs') = mset (map getEnvelope txs)"
  shows "fst (getContentsHash sha256 (TxSetFrame_fromXDR prev txs')) =
           fst (getContentsHash sha256 (TxSetFrame_fromXDR prev txs))"
proof -
  have "sort_key sha256 (map getEnvelope txs') = sort_key sha256 (map getEnvelope txs)"
    using assms by (intro sort_key_mset_inj) simp_all
  then show ?thesis
    by (simp add: getContentsHash_fresh TxSetFrame_fromXDR_def)
qed

text \<open>
  C1.  For sets read from permutations of the same envelopes on the same previous ledger
  hash, \<open>getContentsHash\<close> returns the same hash: the SHA-256 of the previous ledger
  hash followed by the envelopes in ascending order of their full hashes (a sorted
  rearrangement of the given envelopes).  SHA-256 is taken to have no collision among
  the envelopes of the set; two distinct envelopes of equal full hash could be put in
  either order by the sort.
\<close>

theorem getContentsHash_canonical:
  assumes "inj_on sha256 (getEnvelope ` set txs)"
    and "mset (map getEnvelope txs') = mset (map getEnvelope txs)"
  shows "fst (getContentsHash sha256 (TxSetFrame_fromXDR prev txs')) =
           fst (getContentsHash sha256 (TxSetFrame_fromXDR prev txs)) \<and>
         fst (getContentsHash sha256 (TxSetFrame_fromXDR prev txs)) =
           sha256 (hash_bytes prev @ concat (sort_key sha256 (map getEnvelope txs))) \<and>
         sorted (map sha256 (sort_key sha256 (map getEnvelope txs))) \<and>
         mset (sort_key sha256 (map getEnvelope txs)) = mset (map getEnvelope txs)"
proof -
  have "sort_key sha256 (map getEnvelope txs') = sort_key sha256 (map getEnvelope txs)"
    using assms by (intro sort_key_mset_inj) simp_all
  then show ?thesis
    by (simp add: getContentsHash_fresh TxSetFrame_fromXDR_def)
qed

lemma getContentsHash_cached:
  "getContentsHash sha256 (snd (getContentsHash sha256 ts)) = getContentsHash sha256 ts"
  by (simp add: getContentsHash_def Let_def)

theorem getContentsHash_canonical_witness:
  "inj_on ex_sha (getEnvelope ` set [ex_tx101, ex_tx500]) \<and>
   mset (map getEnvelope [ex_tx500, ex_tx101]) = mset (map getEnvelope [ex_tx101, ex_tx500]) \<and>
   fst (getContentsHash ex_sha (TxSetFrame_fromXDR 7 [ex_tx500, ex_tx101])) =
     fst (getContentsHash ex_sha (TxSetFrame_fromXDR 7 [ex_tx101, ex_tx500])) \<and>
   fst (getContentsHash ex_sha (TxSetFrame_fromXDR 7 [ex_tx101, ex_tx500])) =
     ex_sha (hash_bytes 7 @ [5, 9])"
proof -
  have inj: "inj_on ex_sha (getEnvelope ` set [ex_tx101, ex_tx500])"
    by (simp add: ex_sha_def ex_tx101_def ex_tx500_def)
  have perm: "mset (map getEnvelope [ex_tx500, ex_tx101]) =
      mset (map getEnvelope [ex_tx101, ex_tx500])"
    by simp
  show ?thesis
    using inj perm getContentsHash_canonical [OF inj perm, of 7]
    by (simp add: ex_sha_def ex_tx101_def ex_tx500_def)
qed



section \<open>The effective base fee\<close>

lemma ceil_div_up_aux:
  assumes c: "0 < (c::int)"
  shows "(a + c - 1) div c = - ((- a) div c)"
proof (cases "a mod c = 0")
  case True
  then obtain q where a: "a = c * q" by (metis mod_eq_0_iff_dvd dvd_def)
  have "(c * q + (c - 1)) div c = q + (c - 1) div c"
    using c by (simp add: div_mult_self4)
  moreover have "(c - 1) div c = 0"
    using c by (simp add: div_pos_pos_trivial)
  ultimately have "(a + c - 1) div c = q"
    using a by (simp add: algebra_simps)
  moreover have "- ((- a) div c) = q"
    using a c True by (simp add: zdiv_zminus1_eq_if)
  ultimately show ?thesis by simp
next
  case False
  define q where "q = a div c"
  define r where "r = a mod c"
  have a: "a = c * q + r" by (simp add: q_def r_def)
  have r: "0 < r" "r < c"
    using False c unfolding r_def
    by (smt (verit) pos_mod_sign, simp add: c)
  have "a + c - 1 = c * (q + 1) + (r - 1)"
    using a by (simp add: algebra_simps)
  then have "(a + c - 1) div c = (q + 1) + (r - 1) div c"
    using c by (metis div_mult_self4 less_irrefl)
  moreover have "(r - 1) div c = 0"
    using r by (simp add: div_pos_pos_trivial)
  moreover have "(- a) div c = - q - 1"
    using False c by (simp add: zdiv_zminus1_eq_if q_def)
  ultimately show ?thesis by simp
qed

lemma ceil_div_up:
  assumes "0 < (c::int)"
  shows "(a + c - 1) div c = \<lceil>real_of_int a / real_of_int c\<rceil>"
  using ceil_div_up_aux [OF assms, of a] by (simp add: ceiling_divide_eq_div)

lemma sizeOp_fold:
  "fold (\<lambda>tx a. a + unat (getNumOperations tx)) txs n = n + sizeOp txs"
proof -
  have "fold (\<lambda>tx a. a + unat (getNumOperations tx)) txs n =
          n + sum_list (map (\<lambda>tx. unat (getNumOperations tx)) txs)" for n
    by (induction txs arbitrary: n) simp_all
  then show ?thesis by (simp add: sizeOp_def)
qed

lemma sizeOp_Cons: "sizeOp (tx # txs) = unat (getNumOperations tx) + sizeOp txs"
  by (simp add: sizeOp_def sizeOp_fold [of txs "unat (getNumOperations tx)", unfolded sizeOp_def])

lemma sizeOp_Nil: "sizeOp [] = 0"
  by (simp add: sizeOp_def)

lemma bigDivide_perOpBid:
  assumes "getNumOperations tx \<noteq> 0" "0 \<le> getFeeBid tx" "getFeeBid tx \<le> INT64_MAX"
  shows "bigDivide (getFeeBid tx) 1 (uint (getNumOperations tx)) ROUND_UP = Inr (perOpBid tx)"
    and "perOpBid tx \<le> INT64_MAX"
proof -
  let ?c = "uint (getNumOperations tx)"
  have c: "0 < ?c" using assms(1) by (simp add: uint_0_iff less_le)
  have eq: "(getFeeBid tx + ?c - 1) div ?c = perOpBid tx"
    using ceil_div_up [OF c, of "getFeeBid tx"] by (simp add: perOpBid_def)
  have "(getFeeBid tx + ?c - 1) div ?c \<le> getFeeBid tx"
  proof (cases "getFeeBid tx = 0")
    case True
    then show ?thesis using c by (simp add: div_pos_pos_trivial)
  next
    case False
    then have "1 \<le> getFeeBid tx" using assms(2) by simp
    then have "0 \<le> (getFeeBid tx - 1) * (?c - 1)"
      using c by simp
    then have "getFeeBid tx + ?c - 1 \<le> getFeeBid tx * ?c"
      by (simp add: algebra_simps)
    then have "(getFeeBid tx + ?c - 1) div ?c \<le> (getFeeBid tx * ?c) div ?c"
      using c by (intro zdiv_mono1) simp_all
    then show ?thesis using c by simp
  qed
  then show le: "perOpBid tx \<le> INT64_MAX" using eq assms(3) by simp
  show "bigDivide (getFeeBid tx) 1 ?c ROUND_UP = Inr (perOpBid tx)"
    using assms(2) c eq le by (simp add: bigDivide_def Let_def)
qed

lemma getBaseFee_loop_eq:
  assumes "\<forall>tx \<in> set txs. getNumOperations tx \<noteq> 0 \<and> 0 \<le> getFeeBid tx \<and>
             getFeeBid tx \<le> INT64_MAX"
  shows "getBaseFee_loop txs (ops, low) =
           Inr (ops + sizeOp txs, fold (\<lambda>tx l. min l (perOpBid tx)) txs low)"
  using assms
proof (induction txs arbitrary: ops low)
  case Nil
  then show ?case by (simp add: sizeOp_Nil)
next
  case (Cons tx txs)
  then show ?case
    by (simp add: bigDivide_perOpBid(1) sizeOp_Cons)
qed

lemma fold_min_perOpBid:
  assumes "txs \<noteq> []" "\<forall>tx \<in> set txs. perOpBid tx \<le> low"
  shows "fold (\<lambda>tx l. min l (perOpBid tx)) txs low = Min (perOpBid ` set txs)"
proof -
  have "fold (\<lambda>tx l. min l (perOpBid tx)) txs l = Min (insert l (perOpBid ` set txs))" for l
  proof (induction txs arbitrary: l)
    case Nil
    then show ?case by simp
  next
    case (Cons tx txs)
    have "Min (insert (min l (perOpBid tx)) (perOpBid ` set txs)) =
          Min (insert l (insert (perOpBid tx) (perOpBid ` set txs)))"
      by (cases "txs = []") (simp_all add: min.assoc)
    then show ?case using Cons by simp
  qed
  moreover have "Min (perOpBid ` set txs) \<le> low"
    using assms by (auto simp: Min_le_iff neq_Nil_conv)
  then have "Min (insert low (perOpBid ` set txs)) = Min (perOpBid ` set txs)"
    using assms(1) by (simp add: min_absorb2)
  ultimately show ?thesis by simp
qed

text \<open>
  C3 (as amended).  Before protocol version 11 \<open>getBaseFee\<close> returns the base fee of
  the header, whatever the set holds.  From version 11 on, for a set whose transactions
  have at least one operation and a fee bid in the non-negative 64-bit range, it returns
  the lowest per-operation bid (the bid over the operation count, rounded up) when the
  operation count of the set exceeds \<open>maxTxSetSize - 100\<close> (taken as 0 when
  \<open>maxTxSetSize\<close> is below 100), and the base fee of the header otherwise.
\<close>

theorem getBaseFee_surge:
  "(ledgerVersion lh < 11 \<longrightarrow> getBaseFee txs lh = Inr (baseFee lh)) \<and>
   (11 \<le> ledgerVersion lh \<and>
    (\<forall>tx \<in> set txs. getNumOperations tx \<noteq> 0 \<and> 0 \<le> getFeeBid tx \<and>
        getFeeBid tx \<le> INT64_MAX) \<longrightarrow>
    getBaseFee txs lh =
      Inr (if sizeOp txs > maxTxSetSize lh - MAX_OPS_PER_TX
           then Min (perOpBid ` set txs) else baseFee lh))"
proof (intro conjI impI)
  assume "ledgerVersion lh < 11"
  then show "getBaseFee txs lh = Inr (baseFee lh)"
    by (simp add: getBaseFee_def)
next
  assume a: "11 \<le> ledgerVersion lh \<and>
    (\<forall>tx \<in> set txs. getNumOperations tx \<noteq> 0 \<and> 0 \<le> getFeeBid tx \<and>
        getFeeBid tx \<le> INT64_MAX)"
  then have loop: "getBaseFee_loop txs (0, INT64_MAX) =
      Inr (sizeOp txs, fold (\<lambda>tx l. min l (perOpBid tx)) txs INT64_MAX)"
    using getBaseFee_loop_eq [of txs 0 INT64_MAX] by simp
  have cut: "(if maxTxSetSize lh \<ge> MAX_OPS_PER_TX
              then maxTxSetSize lh - MAX_OPS_PER_TX else 0) = maxTxSetSize lh - MAX_OPS_PER_TX"
    by simp
  show "getBaseFee txs lh =
      Inr (if sizeOp txs > maxTxSetSize lh - MAX_OPS_PER_TX
           then Min (perOpBid ` set txs) else baseFee lh)"
  proof (cases "sizeOp txs > maxTxSetSize lh - MAX_OPS_PER_TX")
    case True
    then have ne: "txs \<noteq> []" by (auto simp: sizeOp_Nil)
    have "\<forall>tx \<in> set txs. perOpBid tx \<le> INT64_MAX"
      using a bigDivide_perOpBid(2) by blast
    then have "fold (\<lambda>tx l. min l (perOpBid tx)) txs INT64_MAX = Min (perOpBid ` set txs)"
      using fold_min_perOpBid [OF ne] by blast
    then show ?thesis
      using a True loop cut by (simp add: getBaseFee_def Let_def del: One_nat_def)
  next
    case False
    then show ?thesis
      using a loop cut by (simp add: getBaseFee_def Let_def del: One_nat_def)
  qed
qed

theorem getBaseFee_surge_witness:
  "11 \<le> ledgerVersion ex_lh20 \<and>
   getNumOperations ex_tx500 \<noteq> 0 \<and> 0 \<le> getFeeBid ex_tx500 \<and>
   getFeeBid ex_tx500 \<le> INT64_MAX \<and>
   ledgerVersion ex_lh10 < 11 \<and>
   getBaseFee [ex_tx500] ex_lh10 = Inr 100 \<and>
   getBaseFee [ex_tx500] ex_lh20 = Inr 500"
  using getBaseFee_surge [of ex_lh20 "[ex_tx500]"] getBaseFee_surge [of ex_lh10 "[ex_tx500]"]
  by (simp add: ex_lh20_def ex_lh10_def perOpBid_def sizeOp_def MAX_OPS_PER_TX_def
      ex_tx500_def INT64_MAX_def)

text \<open>
  C3 as stated fails at protocol version 10: one transaction with one operation and a bid
  of 500 exceeds the cutoff \<open>100 - 100\<close>, yet the result is the header's base fee 100.
\<close>

theorem getBaseFee_surge_counterexample:
  "\<not> (getBaseFee [ex_tx500] ex_lh10 =
        Inr (if sizeOp [ex_tx500] > maxTxSetSize ex_lh10 - MAX_OPS_PER_TX
             then Min (perOpBid ` set [ex_tx500]) else baseFee ex_lh10))"
  by (simp add: getBaseFee_def ex_lh10_def sizeOp_def MAX_OPS_PER_TX_def perOpBid_def)
     (simp add: ex_tx500_def)

section \<open>The fee charged at apply time\<close>

lemma wrap64_id: "in_int64 x \<Longrightarrow> wrap64 x = x"
  by (simp add: wrap64_def in_int64_def INT64_MIN_def INT64_MAX_def)

text \<open>
  C4 (as amended).  With a base fee present and \<open>applying\<close> set, and with the base fee
  times the operation count and the sum charged within the signed 64-bit range, the fee
  charged is the flat resource fee (of a Soroban transaction) plus the smaller of the
  inclusion-fee bid and the base fee times the operation count.  So the part charged
  beyond the flat fee never exceeds the inclusion-fee bid; it is exactly the base fee
  times the operation count when that product is within the bid, and the whole bid
  otherwise.
\<close>

theorem fb_getFee_applying:
  assumes "in_int64 (bf * max 1 (uint (fb_getNumOperations fb)))"
    and "in_int64 (fb_flatFee fb +
           min (fb_getInclusionFee fb) (bf * max 1 (uint (fb_getNumOperations fb))))"
  shows "fb_getFee fb lh (Some bf) True =
     fb_flatFee fb + min (fb_getInclusionFee fb) (bf * max 1 (uint (fb_getNumOperations fb))) \<and>
   fb_getFee fb lh (Some bf) True - fb_flatFee fb \<le> fb_getInclusionFee fb \<and>
   (bf * max 1 (uint (fb_getNumOperations fb)) \<le> fb_getInclusionFee fb \<longrightarrow>
      fb_getFee fb lh (Some bf) True =
        fb_flatFee fb + bf * max 1 (uint (fb_getNumOperations fb))) \<and>
   (fb_getInclusionFee fb < bf * max 1 (uint (fb_getNumOperations fb)) \<longrightarrow>
      fb_getFee fb lh (Some bf) True = fb_flatFee fb + fb_getInclusionFee fb)"
proof -
  let ?adj = "bf * max 1 (uint (fb_getNumOperations fb))"
  have flat: "(if tf_isSoroban (mInnerTx fb) then tf_declaredSorobanResourceFee (mInnerTx fb)
               else 0) = fb_flatFee fb"
    by (simp add: fb_flatFee_def fb_isSoroban_def fb_declaredSorobanResourceFee_def)
  have "fb_getFee fb lh (Some bf) True =
          wrap64 (fb_flatFee fb + min (fb_getInclusionFee fb) (wrap64 ?adj))"
    by (simp add: fb_getFee_def Let_def flat)
  also have "\<dots> = fb_flatFee fb + min (fb_getInclusionFee fb) ?adj"
    by (simp only: wrap64_id [OF assms(1)] wrap64_id [OF assms(2)])
  finally have eq: "fb_getFee fb lh (Some bf) True =
      fb_flatFee fb + min (fb_getInclusionFee fb) ?adj" .
  show ?thesis
    unfolding eq by (simp add: min_def)
qed

lemma ex_fb_values:
  "fb_getNumOperations ex_fb201 = 2" "fb_getInclusionFee ex_fb201 = 201" "fb_flatFee ex_fb201 = 0"
  "fb_getNumOperations ex_fb400 = 2" "fb_getInclusionFee ex_fb400 = 400" "fb_flatFee ex_fb400 = 0"
  "fb_getNumOperations ex_fb399 = 2" "fb_getInclusionFee ex_fb399 = 399" "fb_flatFee ex_fb399 = 0"
  by (simp_all add: ex_fb201_def ex_fb400_def ex_fb399_def fb_getNumOperations_def
      fb_getInclusionFee_def fb_isSoroban_def fb_getFullFee_def fb_flatFee_def)

theorem fb_getFee_applying_witness:
  "in_int64 (101 * max 1 (uint (fb_getNumOperations ex_fb400))) \<and>
   in_int64 (fb_flatFee ex_fb400 +
      min (fb_getInclusionFee ex_fb400) (101 * max 1 (uint (fb_getNumOperations ex_fb400)))) \<and>
   101 * max 1 (uint (fb_getNumOperations ex_fb400)) \<le> fb_getInclusionFee ex_fb400 \<and>
   fb_getFee ex_fb400 ex_lh20 (Some 101) True = 202 \<and>
   in_int64 (101 * max 1 (uint (fb_getNumOperations ex_fb201))) \<and>
   in_int64 (fb_flatFee ex_fb201 +
      min (fb_getInclusionFee ex_fb201) (101 * max 1 (uint (fb_getNumOperations ex_fb201)))) \<and>
   fb_getInclusionFee ex_fb201 < 101 * max 1 (uint (fb_getNumOperations ex_fb201)) \<and>
   fb_getFee ex_fb201 ex_lh20 (Some 101) True = 201"
  using fb_getFee_applying [of 101 ex_fb400 ex_lh20] fb_getFee_applying [of 101 ex_fb201 ex_lh20]
  by (simp add: ex_fb_values in_int64_def INT64_MIN_def INT64_MAX_def)

text \<open>
  C4 as stated fails where the base fee was rounded up.  A fee bump of two operations
  that bids 201 passes the fee checks at a least fee of 100 per operation; alone in a
  surging set it makes the base fee 101, and it is charged its bid of 201, not 202.
\<close>

theorem fb_getFee_applying_counterexample:
  "commonValidPreSeqNum ex_fb201 ex_ltx ex_res0 = Inr (True, ex_res0) \<and>
   getNumOperations ex_tx201 = fb_getNumOperations ex_fb201 \<and>
   getFeeBid ex_tx201 = fb_getInclusionFee ex_fb201 \<and>
   getBaseFee [ex_tx201] ex_lh20 = Inr 101 \<and>
   fb_getFee ex_fb201 ex_lh20 (Some 101) True = 201 \<and>
   uint (fb_getNumOperations ex_fb201) * 101 = 202"
proof -
  have a: "commonValidPreSeqNum ex_fb201 ex_ltx ex_res0 = Inr (True, ex_res0)"
    by (simp add: commonValidPreSeqNum_def ex_fb201_def ex_ltx_def ex_lh20_def ex_res0_def
      fb_getInclusionFee_def fb_getNumOperations_def fb_isSoroban_def fb_getFullFee_def
      getMinInclusionFee_def bigMultiply_def loadAccount_def fb_getFeeSourceID_def Let_def)
  have b: "getBaseFee [ex_tx201] ex_lh20 = Inr 101"
    by (simp add: getBaseFee_def bigDivide_def ex_lh20_def ex_tx201_def
      MAX_OPS_PER_TX_def INT64_MAX_def)
  have c: "fb_getFee ex_fb201 ex_lh20 (Some 101) True = 201"
    by (simp add: fb_getFee_def ex_fb201_def fb_getInclusionFee_def fb_getNumOperations_def
        fb_isSoroban_def fb_getFullFee_def wrap64_def Let_def)
  show ?thesis
    by (simp add: a b c ex_fb_values) (simp add: ex_tx201_def)
qed

section \<open>Fee bump validation: the fee rate\<close>

lemma getMinInclusionFee_rate:
  "a * getMinInclusionFee n lh < b * getMinInclusionFee m lh \<longleftrightarrow> a * uint n < b * uint m"
proof -
  let ?m = "max (baseFee lh) 100"
  have m: "0 < ?m" by simp
  have "?m * (a * uint n) < ?m * (b * uint m) \<longleftrightarrow> a * uint n < b * uint m"
    using m by (simp only: mult_less_cancel_left_pos)
  then show ?thesis by (simp add: getMinInclusionFee_def algebra_simps)
qed

text \<open>
  C5 (as amended).  From protocol version 13 on, for a fee bump over an inner
  transaction with an inclusion fee that is not negative and at least one operation,
  \<open>commonValidPreSeqNum\<close> fails with \<open>txINSUFFICIENT_FEE\<close> exactly when the inclusion
  fee is below the least inclusion fee or the inclusion fee per operation is strictly
  below the one of the inner transaction.  At equal fees per operation this check passes.
\<close>

theorem commonValidPreSeqNum_lower_rate:
  assumes v: "13 \<le> ledgerVersion (header ltx)"
    and inner: "0 \<le> tf_getInclusionFee (mInnerTx fb)"
    and ops: "tf_getNumOperations (mInnerTx fb) \<noteq> 0"
  shows "(\<exists>r. commonValidPreSeqNum fb ltx txResult = Inr (False, r) \<and> code r = txINSUFFICIENT_FEE)
     \<longleftrightarrow>
       fb_getInclusionFee fb < getMinInclusionFee (fb_getNumOperations fb) (header ltx) \<or>
       fb_getInclusionFee fb * uint (tf_getNumOperations (mInnerTx fb)) <
         tf_getInclusionFee (mInnerTx fb) * uint (fb_getNumOperations fb)"
proof -
  let ?lh = "header ltx"
  let ?mo = "getMinInclusionFee (fb_getNumOperations fb) ?lh"
  let ?mi = "getMinInclusionFee (tf_getNumOperations (mInnerTx fb)) ?lh"
  have i: "0 < uint (tf_getNumOperations (mInnerTx fb))"
    using ops by (simp add: uint_0_iff less_le)
  have mi: "0 < ?mi" using i by (simp add: getMinInclusionFee_def)
  have mo: "0 \<le> ?mo" by (simp add: getMinInclusionFee_def)
  note rate = getMinInclusionFee_rate [of "fb_getInclusionFee fb" "tf_getNumOperations (mInnerTx fb)"
      ?lh "tf_getInclusionFee (mInnerTx fb)" "fb_getNumOperations fb"]
  show ?thesis
  proof (cases "fb_getInclusionFee fb < ?mo")
    case True
    then show ?thesis using v by (simp add: commonValidPreSeqNum_def Let_def)
  next
    case False
    with mo have f: "0 \<le> fb_getInclusionFee fb" by simp
    show ?thesis
    proof (cases "fb_getInclusionFee fb * ?mi < tf_getInclusionFee (mInnerTx fb) * ?mo")
      case lt: True
      have "\<exists>r. commonValidPreSeqNum fb ltx txResult = Inr (False, r) \<and> code r = txINSUFFICIENT_FEE"
        using v inner False f lt mi mo
        by (simp add: commonValidPreSeqNum_def Let_def bigMultiply_def bigDivide128_def)
      with lt rate show ?thesis by simp
    next
      case ge: False
      have "commonValidPreSeqNum fb ltx txResult =
              (if loadAccount ltx (fb_getFeeSourceID fb) = None
               then Inr (False, txResult\<lparr>code := txNO_ACCOUNT\<rparr>) else Inr (True, txResult))"
        using v inner False f ge mi mo
        by (simp add: commonValidPreSeqNum_def Let_def bigMultiply_def)
      then have "\<not> (\<exists>r. commonValidPreSeqNum fb ltx txResult = Inr (False, r) \<and>
                        code r = txINSUFFICIENT_FEE)"
        by (auto split: if_splits)
      with ge False rate show ?thesis by simp
    qed
  qed
qed

theorem commonValidPreSeqNum_lower_rate_witness:
  "13 \<le> ledgerVersion (header ex_ltx) \<and> 0 \<le> tf_getInclusionFee (mInnerTx ex_fb399) \<and>
   tf_getNumOperations (mInnerTx ex_fb399) \<noteq> 0 \<and>
   \<not> fb_getInclusionFee ex_fb399 < getMinInclusionFee (fb_getNumOperations ex_fb399) (header ex_ltx) \<and>
   fb_getInclusionFee ex_fb399 * uint (tf_getNumOperations (mInnerTx ex_fb399)) <
     tf_getInclusionFee (mInnerTx ex_fb399) * uint (fb_getNumOperations ex_fb399) \<and>
   (\<exists>r. commonValidPreSeqNum ex_fb399 ex_ltx ex_res0 = Inr (False, r) \<and>
        code r = txINSUFFICIENT_FEE)"
  using commonValidPreSeqNum_lower_rate [of ex_ltx ex_fb399 ex_res0]
  by (simp add: ex_fb_values getMinInclusionFee_def) (simp add: ex_ltx_def ex_lh20_def ex_fb399_def)

text \<open>
  C5 as stated fails at equal rates: a fee bump of 400 over an inner transaction of one
  operation bidding 200, at base fee 100.  Both bid 200 per operation; the function
  returns true and leaves the result as it was.
\<close>

theorem commonValidPreSeqNum_lower_rate_counterexample:
  "fb_getInclusionFee ex_fb400 * uint (tf_getNumOperations (mInnerTx ex_fb400)) =
     tf_getInclusionFee (mInnerTx ex_fb400) * uint (fb_getNumOperations ex_fb400) \<and>
   commonValidPreSeqNum ex_fb400 ex_ltx ex_res0 = Inr (True, ex_res0)"
  by (simp add: commonValidPreSeqNum_def ex_fb400_def ex_ltx_def ex_lh20_def ex_res0_def
      fb_getInclusionFee_def fb_getNumOperations_def fb_isSoroban_def fb_getFullFee_def
      getMinInclusionFee_def bigMultiply_def loadAccount_def fb_getFeeSourceID_def Let_def)

section \<open>Fee collection for a fee bump\<close>

text \<open>
  C6 (as amended).  Let the fee source account be present with a balance in the signed
  64-bit range above its least value, and, where the computed fee is positive, let the
  fee pool plus the smaller of fee and balance stay within that range.  Then \<open>processFeeSeqNum\<close> returns normally and
  touches no other account.  If the computed fee is positive, the balance of the fee
  source falls by the smaller of fee and balance, the fee pool rises by the same amount,
  which is also the fee recorded as charged, and a balance that was not negative stays
  so; otherwise the ledger is unchanged.
\<close>

theorem processFeeSeqNum_fee:
  assumes acc: "loadAccount ltx (fb_getFeeSourceID fb) = Some acc"
    and bal: "INT64_MIN < balance acc" "balance acc \<le> INT64_MAX"
    and pool: "0 < fb_getFee fb (header ltx) baseFeeOpt True \<Longrightarrow>
               in_int64 (feePool (header ltx) +
                 min (fb_getFee fb (header ltx) baseFeeOpt True) (balance acc))"
  shows "\<exists>res ltx' acc'.
     processFeeSeqNum fb ltx baseFeeOpt = Inr (res, ltx') \<and>
     loadAccount ltx' (fb_getFeeSourceID fb) = Some acc' \<and>
     (\<forall>a. a \<noteq> fb_getFeeSourceID fb \<longrightarrow> loadAccount ltx' a = loadAccount ltx a) \<and>
     (let c = fb_getFee fb (header ltx) baseFeeOpt True in
      if 0 < c then
        balance acc' = balance acc - min c (balance acc) \<and>
        feePool (header ltx') = feePool (header ltx) + min c (balance acc) \<and>
        feeCharged res = min c (balance acc) \<and>
        balance acc - balance acc' = feePool (header ltx') - feePool (header ltx) \<and>
        (0 \<le> balance acc \<longrightarrow> 0 \<le> balance acc')
      else ltx' = ltx \<and> acc' = acc \<and> feeCharged res = c)"
proof (cases "0 < fb_getFee fb (header ltx) baseFeeOpt True")
  case False
  with acc show ?thesis
    by (simp add: processFeeSeqNum_def createResultPayloadWithFeeCharged_def Let_def
        loadAccount_def)
next
  case True
  let ?c = "fb_getFee fb (header ltx) baseFeeOpt True"
  let ?fee = "min (balance acc) ?c"
  have "in_int64 (- ?fee)"
    using bal True by (simp add: in_int64_def INT64_MIN_def INT64_MAX_def min_def)
  then have neg: "wrap64 (- ?fee) = - ?fee" by (rule wrap64_id)
  have p: "wrap64 (feePool (header ltx) + ?fee) = feePool (header ltx) + ?fee"
    using pool [OF True] by (simp add: wrap64_id min.commute)
  have ab: "snd (addBalance (balance acc) (- ?fee)) = balance acc - ?fee"
    by (simp add: addBalance_def min_def)
  have "processFeeSeqNum fb ltx baseFeeOpt =
     Inr (\<lparr>feeCharged = ?fee, code = txFEE_BUMP_INNER_SUCCESS\<rparr>,
          ltx\<lparr>accounts := (accounts ltx)(fb_getFeeSourceID fb \<mapsto> acc\<lparr>balance := balance acc - ?fee\<rparr>),
              header := (header ltx)\<lparr>feePool := feePool (header ltx) + ?fee\<rparr>\<rparr>)"
    using acc True
    by (simp add: processFeeSeqNum_def createResultPayloadWithFeeCharged_def Let_def neg p ab)
  with True show ?thesis
    by (simp add: loadAccount_def Let_def min.commute)
qed

theorem processFeeSeqNum_fee_witness:
  "loadAccount ex_ltx (fb_getFeeSourceID ex_fb400) = Some \<lparr>balance = 250\<rparr> \<and>
   INT64_MIN < 250 \<and> 250 \<le> INT64_MAX \<and>
   in_int64 (feePool (header ex_ltx) + min (fb_getFee ex_fb400 (header ex_ltx) None True) 250) \<and>
   0 < fb_getFee ex_fb400 (header ex_ltx) None True \<and>
   (\<exists>res ltx'. processFeeSeqNum ex_fb400 ex_ltx None = Inr (res, ltx') \<and>
      loadAccount ltx' (fb_getFeeSourceID ex_fb400) = Some \<lparr>balance = 0\<rparr> \<and>
      feePool (header ltx') = 250 \<and> feeCharged res = 250) \<and>
   \<not> 0 < fb_getFee ex_fb400 (header ex_ltx) (Some 0) True \<and>
   (\<exists>res. processFeeSeqNum ex_fb400 ex_ltx (Some 0) = Inr (res, ex_ltx) \<and> feeCharged res = 0)"
proof -
  have f: "fb_getFee ex_fb400 (header ex_ltx) None True = 400"
    "fb_getFee ex_fb400 (header ex_ltx) (Some 0) True = 0"
    by (simp_all add: fb_getFee_def ex_fb400_def fb_getFullFee_def fb_getInclusionFee_def
        fb_isSoroban_def wrap64_def Let_def)
  have a: "loadAccount ex_ltx (fb_getFeeSourceID ex_fb400) = Some \<lparr>balance = 250\<rparr>"
    by (simp add: ex_ltx_def ex_fb400_def loadAccount_def fb_getFeeSourceID_def)
  have p: "feePool (header ex_ltx) = 0" by (simp add: ex_ltx_def ex_lh20_def)
  have r: "INT64_MIN < balance \<lparr>balance = 250\<rparr>" "balance \<lparr>balance = 250\<rparr> \<le> INT64_MAX"
    "in_int64 250" "in_int64 0"
    by (simp_all add: in_int64_def INT64_MIN_def INT64_MAX_def)
  from processFeeSeqNum_fee [of ex_ltx ex_fb400 "\<lparr>balance = 250\<rparr>" None, OF a r(1,2)]
    processFeeSeqNum_fee [of ex_ltx ex_fb400 "\<lparr>balance = 250\<rparr>" "Some 0", OF a r(1,2)]
  show ?thesis
    using r by (auto simp: f a p)
qed

text \<open>
  C6 as stated fails where the fee pool leaves the 64-bit range: with a fee pool 399
  below the greatest value and a fee of 400, the balance falls by 400 and the fee pool
  wraps around to the least value.
\<close>

theorem processFeeSeqNum_fee_counterexample:
  "loadAccount ex_ltx_full (fb_getFeeSourceID ex_fb400) = Some \<lparr>balance = 1000\<rparr> \<and>
   fb_getFee ex_fb400 (header ex_ltx_full) None True = 400 \<and>
   feePool (header ex_ltx_full) = INT64_MAX - 399 \<and>
   processFeeSeqNum ex_fb400 ex_ltx_full None =
     Inr (\<lparr>feeCharged = 400, code = txFEE_BUMP_INNER_SUCCESS\<rparr>,
          \<lparr>accounts = [3 \<mapsto> \<lparr>balance = 600\<rparr>],
            header = ex_lh20\<lparr>feePool := INT64_MIN\<rparr>\<rparr>) \<and>
   INT64_MIN \<noteq> INT64_MAX - 399 + 400"
  by (simp add: processFeeSeqNum_def createResultPayloadWithFeeCharged_def fb_getFee_def
      ex_fb400_def ex_ltx_full_def ex_lh20_def loadAccount_def fb_getFeeSourceID_def
      fb_getFullFee_def addBalance_def wrap64_def INT64_MAX_def INT64_MIN_def Let_def)

section \<open>The apply order\<close>

lemma popFronts_nonempty:
  "nonempty_queues qs \<Longrightarrow> popFronts qs = Some (map (\<lambda>(a, q). hd q) qs, popped qs)"
proof (induction qs rule: popFronts.induct)
  case 1
  then show ?case by (simp add: popped_def)
next
  case (2 a rest)
  then show ?case by (simp add: nonempty_queues_def)
next
  case (3 a h t rest)
  then show ?case by (simp add: nonempty_queues_def popped_def)
qed

lemma nonempty_popped: "nonempty_queues (popped qs)"
  by (auto simp: nonempty_queues_def popped_def)

lemma buildBatches_unfold:
  "nonempty_queues qs \<Longrightarrow> qs \<noteq> [] \<Longrightarrow>
   buildBatches qs = map_option ((#) (map (\<lambda>(a, q). hd q) qs)) (buildBatches (popped qs))"
  by (subst buildBatches.simps) (simp add: popFronts_nonempty split: option.splits)

lemma queues_size_popped: "qs \<noteq> [] \<Longrightarrow> queues_size (popped qs) < queues_size qs"
proof (induction qs)
  case Nil
  then show ?case by simp
next
  case (Cons p qs)
  obtain a q where p: "p = (a, q)" by (cases p)
  have "queues_size (popped qs) \<le> queues_size qs"
    using Cons.IH by (cases "qs = []") (simp_all add: popped_def less_imp_le)
  then show ?case
    using p by (cases q) (simp_all add: popped_def queues_size_def)
qed

lemma buildBatches_total:
  "nonempty_queues qs \<Longrightarrow> \<exists>bs. buildBatches qs = Some bs"
proof (induction "queues_size qs" arbitrary: qs rule: less_induct)
  case less
  show ?case
  proof (cases "qs = []")
    case True
    then show ?thesis by (simp add: buildBatches.simps)
  next
    case False
    from less(1) [OF queues_size_popped [OF False] nonempty_popped]
    obtain bs where "buildBatches (popped qs) = Some bs" by blast
    then show ?thesis
      using buildBatches_unfold [OF less(2) False] by simp
  qed
qed

text \<open>Induction over the passes of the batch loop.\<close>

lemma batches_induct [consumes 1, case_names empty step]:
  assumes "nonempty_queues qs"
    and "P []"
    and "\<And>qs. nonempty_queues qs \<Longrightarrow> qs \<noteq> [] \<Longrightarrow> P (popped qs) \<Longrightarrow> P qs"
  shows "P qs"
  using assms(1)
proof (induction "queues_size qs" arbitrary: qs rule: less_induct)
  case less
  show ?case
  proof (cases "qs = []")
    case True
    then show ?thesis using assms(2) by simp
  next
    case False
    show ?thesis
      by (rule assms(3) [OF less(2) False])
         (rule less(1) [OF queues_size_popped [OF False] nonempty_popped])
  qed
qed

lemma mset_heads_popped:
  "nonempty_queues qs \<Longrightarrow>
   mset (map (\<lambda>(a, q). hd q) qs) + (\<Sum>(a, q)\<leftarrow>popped qs. mset q) = (\<Sum>(a, q)\<leftarrow>qs. mset q)"
proof (induction qs)
  case Nil
  then show ?case by (simp add: popped_def)
next
  case (Cons p qs)
  obtain a q where p: "p = (a, q)" by (cases p)
  from Cons.prems p obtain h t where q: "q = h # t"
    by (cases q) (auto simp: nonempty_queues_def)
  from Cons have IH: "mset (map (\<lambda>(a, q). hd q) qs) + (\<Sum>(a, q)\<leftarrow>popped qs. mset q) =
      (\<Sum>(a, q)\<leftarrow>qs. mset q)"
    by (simp add: nonempty_queues_def)
  have "popped (p # qs) = (if t = [] then popped qs else (a, t) # popped qs)"
    using p q by (simp add: popped_def)
  then show ?case
    using p q IH by (auto simp: ac_simps simp flip: IH)
qed

lemma mset_buildBatches:
  assumes "nonempty_queues qs" "buildBatches qs = Some bs"
  shows "mset (concat bs) = (\<Sum>(a, q)\<leftarrow>qs. mset q)"
  using assms
proof (induction qs arbitrary: bs rule: batches_induct)
  case empty
  then show ?case by (simp add: buildBatches.simps)
next
  case (step qs)
  from step(4) buildBatches_unfold [OF step(1,2)]
  obtain bs' where bs': "buildBatches (popped qs) = Some bs'"
    "bs = map (\<lambda>(a, q). hd q) qs # bs'"
    by (cases "buildBatches (popped qs)") auto
  from step(3) [OF bs'(1)] mset_heads_popped [OF step(1)] bs'(2)
  show ?case by simp
qed

lemma map_of_addToQueue:
  "map_of (addToQueue tx Q) =
     (map_of Q)(getSourceID tx \<mapsto>
        (case map_of Q (getSourceID tx) of None \<Rightarrow> [tx] | Some q \<Rightarrow> q @ [tx]))"
  by (induction Q) (auto simp: fun_eq_iff)

lemma keys_addToQueue:
  "map fst (addToQueue tx Q) =
     (if getSourceID tx \<in> fst ` set Q then map fst Q else map fst Q @ [getSourceID tx])"
  by (induction Q) (force simp: image_iff split: if_splits)+

lemma mset_addToQueue:
  "(\<Sum>(a, q)\<leftarrow>addToQueue tx Q. mset q) = add_mset tx (\<Sum>(a, q)\<leftarrow>Q. mset q)"
  by (induction Q) auto

lemma fold_addToQueue:
  "distinct (map fst (fold addToQueue txs [])) \<and>
   fst ` set (fold addToQueue txs []) = getSourceID ` set txs \<and>
   map_of (fold addToQueue txs []) =
     (\<lambda>a. if a \<in> getSourceID ` set txs
          then Some (filter (\<lambda>t. getSourceID t = a) txs) else None) \<and>
   (\<Sum>(a, q)\<leftarrow>fold addToQueue txs []. mset q) = mset txs"
proof (induction txs rule: rev_induct)
  case Nil
  then show ?case by (simp add: fun_eq_iff)
next
  case (snoc tx txs)
  let ?Q = "fold addToQueue txs []"
  have d: "distinct (map fst (addToQueue tx ?Q))"
    using snoc by (simp add: keys_addToQueue)
  have k: "fst ` set (addToQueue tx ?Q) = getSourceID ` set (txs @ [tx])"
  proof -
    have "set (map fst (addToQueue tx ?Q)) = insert (getSourceID tx) (fst ` set ?Q)"
      by (auto simp: keys_addToQueue)
    then show ?thesis using snoc by auto
  qed
  have m: "map_of (addToQueue tx ?Q) =
     (\<lambda>a. if a \<in> getSourceID ` set (txs @ [tx])
          then Some (filter (\<lambda>t. getSourceID t = a) (txs @ [tx])) else None)"
  proof
    fix a
    show "map_of (addToQueue tx ?Q) a =
       (if a \<in> getSourceID ` set (txs @ [tx])
        then Some (filter (\<lambda>t. getSourceID t = a) (txs @ [tx])) else None)"
    proof (cases "a = getSourceID tx")
      case True
      have "filter (\<lambda>t. getSourceID t = getSourceID tx) txs = []"
        if "getSourceID tx \<notin> getSourceID ` set txs"
        using that by (auto simp: filter_empty_conv) (metis imageI)
      with True snoc show ?thesis
        by (simp add: map_of_addToQueue)
    next
      case False
      with snoc show ?thesis
        by (simp add: map_of_addToQueue)
    qed
  qed
  show ?case
    using d k m snoc by (simp add: mset_addToQueue)
qed

lemma buildAccountTxQueues_props:
  "distinct (map fst (buildAccountTxQueues txs))"
  "fst ` set (buildAccountTxQueues txs) = getSourceID ` set txs"
  "map_of (buildAccountTxQueues txs) a =
     (if a \<in> getSourceID ` set txs
      then Some (sort_key getSeqNum (filter (\<lambda>t. getSourceID t = a) txs)) else None)"
  "(\<Sum>(a, q)\<leftarrow>buildAccountTxQueues txs. mset q) = mset txs"
proof -
  let ?Q = "fold addToQueue txs []"
  have keys: "map fst (buildAccountTxQueues txs) = map fst ?Q"
    by (simp add: buildAccountTxQueues_def case_prod_unfold comp_def)
  show "distinct (map fst (buildAccountTxQueues txs))"
    using fold_addToQueue [of txs] by (simp add: keys)
  have "set (map fst (buildAccountTxQueues txs)) = set (map fst ?Q)"
    by (simp only: keys)
  then show "fst ` set (buildAccountTxQueues txs) = getSourceID ` set txs"
    using fold_addToQueue [of txs] by simp
  have "map_of (buildAccountTxQueues txs) = map_option (sort_key getSeqNum) \<circ> map_of ?Q"
    unfolding buildAccountTxQueues_def by (rule map_of_map)
  then show "map_of (buildAccountTxQueues txs) a =
     (if a \<in> getSourceID ` set txs
      then Some (sort_key getSeqNum (filter (\<lambda>t. getSourceID t = a) txs)) else None)"
    using fold_addToQueue [of txs] by simp
  have "(\<Sum>(a, q)\<leftarrow>buildAccountTxQueues txs. mset q) = (\<Sum>(a, q)\<leftarrow>?Q. mset q)"
    by (simp add: buildAccountTxQueues_def case_prod_unfold comp_def)
  then show "(\<Sum>(a, q)\<leftarrow>buildAccountTxQueues txs. mset q) = mset txs"
    using fold_addToQueue [of txs] by simp
qed

lemma buildAccountTxQueues_member:
  assumes "(a, q) \<in> set (buildAccountTxQueues txs)"
  shows "a \<in> getSourceID ` set txs"
    and "q = sort_key getSeqNum (filter (\<lambda>t. getSourceID t = a) txs)"
proof -
  from assms have "map_of (buildAccountTxQueues txs) a = Some q"
    using buildAccountTxQueues_props(1) [of txs] by simp
  then show "a \<in> getSourceID ` set txs"
    and "q = sort_key getSeqNum (filter (\<lambda>t. getSourceID t = a) txs)"
    by (auto simp: buildAccountTxQueues_props(3) split: if_splits)
qed

lemma buildAccountTxQueues_nonempty: "nonempty_queues (buildAccountTxQueues txs)"
  unfolding nonempty_queues_def
proof (clarify)
  fix a
  assume "(a, []) \<in> set (buildAccountTxQueues txs)"
  from buildAccountTxQueues_member [OF this]
  have a: "a \<in> getSourceID ` set txs"
    and "sort_key getSeqNum (filter (\<lambda>t. getSourceID t = a) txs) = []"
    by simp_all
  then have "mset (filter (\<lambda>t. getSourceID t = a) txs) = {#}"
    by (metis mset_sort mset_zero_iff)
  then have "filter (\<lambda>t. getSourceID t = a) txs = []"
    by simp
  with a show False by (auto simp: filter_empty_conv)
qed

lemma buildAccountTxQueues_owned: "owned_queues (buildAccountTxQueues txs)"
  unfolding owned_queues_def
proof (clarify)
  fix a q t
  assume "(a, q) \<in> set (buildAccountTxQueues txs)" "t \<in> set q"
  with buildAccountTxQueues_member(2) [of a q txs] show "getSourceID t = a"
    by simp
qed

lemma popped_Cons:
  "popped ((a, q) # qs) = (if tl q = [] then popped qs else (a, tl q) # popped qs)"
  by (simp add: popped_def)

lemma keys_popped: "fst ` set (popped qs) \<subseteq> fst ` set qs"
  by (force simp: popped_def image_iff)

lemma distinct_popped: "distinct (map fst qs) \<Longrightarrow> distinct (map fst (popped qs))"
proof (induction qs)
  case Nil
  then show ?case by (simp add: popped_def)
next
  case (Cons p qs)
  obtain a q where p: "p = (a, q)" by (cases p)
  from Cons.prems p have "a \<notin> fst ` set (popped qs)"
    using keys_popped [of qs] by auto
  with Cons p show ?case by (simp add: popped_Cons)
qed

lemma owned_popped: "owned_queues qs \<Longrightarrow> owned_queues (popped qs)"
  unfolding owned_queues_def
proof clarify
  fix a q t
  assume o: "\<forall>(a, q)\<in>set qs. \<forall>t\<in>set q. getSourceID t = a"
    and m: "(a, q) \<in> set (popped qs)" "t \<in> set q"
  from m(1) obtain q0 where q0: "(a, q0) \<in> set qs" "q = tl q0" "q \<noteq> []"
    by (auto simp: popped_def)
  with m(2) have "t \<in> set q0"
    by (cases q0) auto
  with o q0(1) show "getSourceID t = a" by auto
qed

lemma map_of_popped:
  "distinct (map fst qs) \<Longrightarrow>
   map_of (popped qs) a =
     (case map_of qs a of None \<Rightarrow> None
      | Some q \<Rightarrow> if tl q = [] then None else Some (tl q))"
proof (induction qs)
  case Nil
  then show ?case by (simp add: popped_def)
next
  case (Cons p qs)
  obtain b q where p: "p = (b, q)" by (cases p)
  show ?case
  proof (cases "b = a")
    case True
    with Cons.prems p have "a \<notin> fst ` set (popped qs)"
      using keys_popped [of qs] by auto
    then have "map_of (popped qs) a = None"
      by (simp add: map_of_eq_None_iff)
    with True p show ?thesis by (simp add: popped_Cons)
  next
    case False
    with Cons p show ?thesis by (simp add: popped_Cons)
  qed
qed

lemma filter_heads:
  assumes "distinct (map fst qs)" "owned_queues qs" "nonempty_queues qs"
  shows "filter (\<lambda>t. getSourceID t = a) (map (\<lambda>(a, q). hd q) qs) =
           (case map_of qs a of None \<Rightarrow> [] | Some q \<Rightarrow> [hd q])"
  using assms
proof (induction qs)
  case Nil
  then show ?case by simp
next
  case (Cons p qs)
  obtain b q where p: "p = (b, q)" by (cases p)
  from Cons.prems p have q: "q \<noteq> []" "getSourceID (hd q) = b"
    by (auto simp: nonempty_queues_def owned_queues_def)
  from Cons have IH: "filter (\<lambda>t. getSourceID t = a) (map (\<lambda>(a, q). hd q) qs) =
           (case map_of qs a of None \<Rightarrow> [] | Some q \<Rightarrow> [hd q])"
    by (simp add: nonempty_queues_def owned_queues_def)
  show ?case
  proof (cases "b = a")
    case True
    with Cons.prems p have "map_of qs a = None"
      by (auto simp: map_of_eq_None_iff)
    with True p q IH show ?thesis by simp
  next
    case False
    with p q IH show ?thesis by simp
  qed
qed

lemma filter_batches:
  assumes "nonempty_queues qs" "distinct (map fst qs)" "owned_queues qs"
    and "buildBatches qs = Some bs"
  shows "filter (\<lambda>t. getSourceID t = a) (concat (map (sort_key k) bs)) =
           (case map_of qs a of None \<Rightarrow> [] | Some q \<Rightarrow> q)"
  using assms
proof (induction qs arbitrary: bs rule: batches_induct)
  case empty
  then show ?case by (simp add: buildBatches.simps)
next
  case (step qs)
  from step(6) buildBatches_unfold [OF step(1,2)]
  obtain bs' where bs': "buildBatches (popped qs) = Some bs'"
    "bs = map (\<lambda>(a, q). hd q) qs # bs'"
    by (cases "buildBatches (popped qs)") auto
  have IH: "filter (\<lambda>t. getSourceID t = a) (concat (map (sort_key k) bs')) =
           (case map_of (popped qs) a of None \<Rightarrow> [] | Some q \<Rightarrow> q)"
    by (rule step(3) [OF distinct_popped [OF step(4)] owned_popped [OF step(5)] bs'(1)])
  have hd: "filter (\<lambda>t. getSourceID t = a) (sort_key k (map (\<lambda>(a, q). hd q) qs)) =
      (case map_of qs a of None \<Rightarrow> [] | Some q \<Rightarrow> [hd q])"
    by (simp add: filter_sort filter_heads [OF step(4,5,1)] split: option.splits)
  show ?case
  proof (cases "map_of qs a")
    case None
    then show ?thesis
      using IH hd bs'(2) by (simp add: map_of_popped [OF step(4)])
  next
    case (Some q)
    then have "(a, q) \<in> set qs" by (rule map_of_SomeD)
    with step(1) have "q \<noteq> []" by (auto simp: nonempty_queues_def)
    then have "hd q # tl q = q" by simp
    moreover have "filter (\<lambda>t. getSourceID t = a) (concat (map (sort_key k) bs')) = tl q"
      using IH Some by (simp add: map_of_popped [OF step(4)])
    ultimately show ?thesis
      using hd bs'(2) Some by simp
  qed
qed

lemma nth_popped:
  "nonempty_queues qs \<Longrightarrow>
   map (\<lambda>(a, q). q ! j) (filter (\<lambda>(a, q). j < length q) (popped qs)) =
   map (\<lambda>(a, q). q ! Suc j) (filter (\<lambda>(a, q). Suc j < length q) qs)"
proof (induction qs)
  case Nil
  then show ?case by (simp add: popped_def)
next
  case (Cons p qs)
  obtain b q where p: "p = (b, q)" by (cases p)
  from Cons.prems p obtain h t where q: "q = h # t"
    by (cases q) (auto simp: nonempty_queues_def)
  from Cons have "map (\<lambda>(a, q). q ! j) (filter (\<lambda>(a, q). j < length q) (popped qs)) =
   map (\<lambda>(a, q). q ! Suc j) (filter (\<lambda>(a, q). Suc j < length q) qs)"
    by (simp add: nonempty_queues_def)
  then show ?case
    using p q by (simp add: popped_Cons)
qed

lemma nth_buildBatches:
  assumes "nonempty_queues qs" "buildBatches qs = Some bs" "i < length bs"
  shows "bs ! i = map (\<lambda>(a, q). q ! i) (filter (\<lambda>(a, q). i < length q) qs)"
  using assms
proof (induction qs arbitrary: bs i rule: batches_induct)
  case empty
  then show ?case by (simp add: buildBatches.simps)
next
  case (step qs)
  from step(4) buildBatches_unfold [OF step(1,2)]
  obtain bs' where bs': "buildBatches (popped qs) = Some bs'"
    "bs = map (\<lambda>(a, q). hd q) qs # bs'"
    by (cases "buildBatches (popped qs)") auto
  show ?case
  proof (cases i)
    case 0
    have "filter (\<lambda>(a, q). 0 < length q) qs = qs"
      using step(1) by (auto simp: nonempty_queues_def filter_id_conv)
    moreover have "map (\<lambda>(a, q). hd q) qs = map (\<lambda>(a, q). q ! 0) qs"
      using step(1) by (auto simp: nonempty_queues_def hd_conv_nth)
    ultimately show ?thesis using 0 bs'(2) by simp
  next
    case (Suc j)
    with step(5) bs'(2) have "j < length bs'" by simp
    from step(3) [OF bs'(1) this] Suc bs'(2) nth_popped [OF step(1), of j]
    show ?thesis by simp
  qed
qed

lemma sortBatches_concat:
  "fst (sortBatches sha256 bs ts) =
     concat (map (sort_key (applyKey sha256 (fst (getContentsHash sha256 ts)))) bs)"
proof (induction bs arbitrary: ts)
  case Nil
  then show ?case by simp
next
  case (Cons b bs)
  obtain h ts1 where g: "getContentsHash sha256 ts = (h, ts1)"
    by (cases "getContentsHash sha256 ts")
  then have "fst (getContentsHash sha256 ts1) = h"
    using getContentsHash_cached [of sha256 ts] by simp
  with Cons [of ts1] g show ?case
    by (simp add: case_prod_unfold)
qed

lemma xor_inj: "(x::Hash) XOR h = y XOR h \<Longrightarrow> x = y"
  by (metis bit.xor_left_self word_bw_comms(3))

lemma exists_popped:
  "(\<exists>(a, q) \<in> set (popped qs). j < length q) \<longleftrightarrow>
   (\<exists>(a, q) \<in> set qs. Suc j < length q)"
proof (induction qs)
  case Nil
  then show ?case by (simp add: popped_def)
next
  case (Cons p qs)
  obtain b q where p: "p = (b, q)" by (cases p)
  have "tl q \<noteq> []" if "Suc j < length q"
    using that by (cases q) auto
  then show ?case
    using Cons p by (auto simp: popped_Cons)
qed

lemma length_buildBatches:
  assumes "nonempty_queues qs" "buildBatches qs = Some bs"
  shows "i < length bs \<longleftrightarrow> (\<exists>(a, q) \<in> set qs. i < length q)"
  using assms
proof (induction qs arbitrary: bs i rule: batches_induct)
  case empty
  then show ?case by (simp add: buildBatches.simps)
next
  case (step qs)
  from step(4) buildBatches_unfold [OF step(1,2)]
  obtain bs' where bs': "buildBatches (popped qs) = Some bs'"
    "bs = map (\<lambda>(a, q). hd q) qs # bs'"
    by (cases "buildBatches (popped qs)") auto
  show ?case
  proof (cases i)
    case 0
    from step(2) obtain a q where "(a, q) \<in> set qs" by (cases qs) auto
    with step(1) have "\<exists>(a, q) \<in> set qs. 0 < length q"
      by (force simp: nonempty_queues_def)
    with 0 bs'(2) show ?thesis by simp
  next
    case (Suc j)
    have "(\<exists>(a, q) \<in> set (popped qs). j < length q) \<longleftrightarrow>
          (\<exists>(a, q) \<in> set qs. Suc j < length q)"
      by (rule exists_popped)
    with step(3) [OF bs'(1), of j] Suc bs'(2) show ?thesis by simp
  qed
qed


lemma queues_perm:
  assumes "mset txs' = mset txs"
    and "inj_on (\<lambda>t. (getSourceID t, getSeqNum t)) (set txs)"
  shows "mset (buildAccountTxQueues txs') = mset (buildAccountTxQueues txs)"
proof -
  have s: "set txs' = set txs" using assms(1) by (rule mset_eq_setD)
  have "map_of (buildAccountTxQueues txs') a = map_of (buildAccountTxQueues txs) a" for a
  proof -
    have "inj_on getSeqNum (set (filter (\<lambda>t. getSourceID t = a) txs))"
      using assms(2) by (auto simp: inj_on_def)
    moreover have "mset (filter (\<lambda>t. getSourceID t = a) txs') =
        mset (filter (\<lambda>t. getSourceID t = a) txs)"
      using assms(1) by simp
    ultimately have "sort_key getSeqNum (filter (\<lambda>t. getSourceID t = a) txs') =
        sort_key getSeqNum (filter (\<lambda>t. getSourceID t = a) txs)"
      by (intro sort_key_mset_inj)
    then show ?thesis by (simp add: buildAccountTxQueues_props(3) s)
  qed
  then have "map_of (buildAccountTxQueues txs') = map_of (buildAccountTxQueues txs)"
    by (simp add: fun_eq_iff)
  then have "set (buildAccountTxQueues txs') = set (buildAccountTxQueues txs)"
    using buildAccountTxQueues_props(1) by (simp add: map_of_inject_set)
  moreover have "distinct (buildAccountTxQueues txs')" "distinct (buildAccountTxQueues txs)"
    using buildAccountTxQueues_props(1) distinct_map by blast+
  ultimately show ?thesis
    by (simp add: set_eq_iff_mset_eq_distinct)
qed

lemma batches_perm:
  assumes "mset qs' = mset qs" "nonempty_queues qs"
    and "buildBatches qs = Some bs" "buildBatches qs' = Some bs'"
  shows "length bs' = length bs" and "i < length bs \<Longrightarrow> mset (bs' ! i) = mset (bs ! i)"
proof -
  have s: "set qs' = set qs" using assms(1) by (rule mset_eq_setD)
  then have ne: "nonempty_queues qs'" using assms(2) by (simp add: nonempty_queues_def)
  have "j < length bs' \<longleftrightarrow> j < length bs" for j
    using length_buildBatches [OF assms(2,3), of j] length_buildBatches [OF ne assms(4), of j] s
    by simp
  then show l: "length bs' = length bs"
    by (metis linorder_neqE_nat nat_neq_iff)
  show "mset (bs' ! i) = mset (bs ! i)" if "i < length bs"
  proof -
    have "mset (map (\<lambda>(a, q). q ! i) (filter (\<lambda>(a, q). i < length q) qs')) =
          mset (map (\<lambda>(a, q). q ! i) (filter (\<lambda>(a, q). i < length q) qs))"
      using assms(1) by simp
    then show ?thesis
      using that l nth_buildBatches [OF assms(2,3), of i] nth_buildBatches [OF ne assms(4), of i]
      by simp
  qed
qed

lemma set_buildBatches:
  assumes "nonempty_queues qs" "buildBatches qs = Some bs"
  shows "set (concat bs) = (\<Union>(a, q) \<in> set qs. set q)"
proof -
  have "set_mset (mset (concat bs)) = set_mset (\<Sum>(a, q)\<leftarrow>qs. mset q)"
    using mset_buildBatches [OF assms] by simp
  also have "\<dots> = (\<Union>(a, q) \<in> set qs. set q)"
    by (induction qs) auto
  finally show ?thesis by simp
qed

lemma sorted_by_ApplyTxSorter:
  "sorted_wrt (\<lambda>x y. \<not> ApplyTxSorter sha256 h y x) (sort_key (applyKey sha256 h) b)"
proof -
  have "sorted (map (applyKey sha256 h) (sort_key (applyKey sha256 h) b))"
    by simp
  then show ?thesis
    by (simp add: sorted_map ApplyTxSorter_def lessThanXored_def applyKey_def not_less)
qed

lemma sortForApply_struct:
  obtains txBatches where
    "buildBatches (buildAccountTxQueues (mTransactions ts)) = Some txBatches"
    "sortForApply sha256 ts = Some (sortBatches sha256 txBatches ts)"
proof -
  from buildBatches_total [OF buildAccountTxQueues_nonempty, of "mTransactions ts"]
  obtain bs where "buildBatches (buildAccountTxQueues (mTransactions ts)) = Some bs"
    by blast
  then show ?thesis
    using that by (simp add: sortForApply_def)
qed

lemma sortForApply_account_order:
  assumes "buildBatches (buildAccountTxQueues txs) = Some bs"
  shows "filter (\<lambda>t. getSourceID t = a) (concat (map (sort_key k) bs)) =
           sort_key getSeqNum (filter (\<lambda>t. getSourceID t = a) txs)"
proof -
  have "filter (\<lambda>t. getSourceID t = a) (concat (map (sort_key k) bs)) =
      (case map_of (buildAccountTxQueues txs) a of None \<Rightarrow> [] | Some q \<Rightarrow> q)"
    by (rule filter_batches [OF buildAccountTxQueues_nonempty buildAccountTxQueues_props(1)
          buildAccountTxQueues_owned assms])
  moreover have "filter (\<lambda>t. getSourceID t = a) txs = []"
    if "a \<notin> getSourceID ` set txs"
    using that by (auto simp: filter_empty_conv)
  ultimately show ?thesis
    by (simp add: buildAccountTxQueues_props(3))
qed

lemma sortForApply_perm:
  assumes p: "mset txs' = mset txs"
    and h: "inj_on (getFullHash sha256) (set txs)"
    and s: "inj_on (\<lambda>t. (getSourceID t, getSeqNum t)) (set txs)"
  shows "map_option fst (sortForApply sha256 (TxSetFrame_fromXDR prev txs')) =
         map_option fst (sortForApply sha256 (TxSetFrame_fromXDR prev txs))"
proof -
  let ?ts = "TxSetFrame_fromXDR prev txs" and ?ts' = "TxSetFrame_fromXDR prev txs'"
  have tx: "mTransactions ?ts = txs" "mTransactions ?ts' = txs'"
    by (simp_all add: TxSetFrame_fromXDR_def)
  obtain bs where bs: "buildBatches (buildAccountTxQueues txs) = Some bs"
    "sortForApply sha256 ?ts = Some (sortBatches sha256 bs ?ts)"
    using sortForApply_struct [of ?ts sha256] tx by auto
  obtain bs' where bs': "buildBatches (buildAccountTxQueues txs') = Some bs'"
    "sortForApply sha256 ?ts' = Some (sortBatches sha256 bs' ?ts')"
    using sortForApply_struct [of ?ts' sha256] tx by auto
  have "inj_on sha256 (getEnvelope ` set txs)"
    using h by (auto simp: inj_on_def getFullHash_def)
  moreover have "mset (map getEnvelope txs') = mset (map getEnvelope txs)"
    using p by simp
  ultimately have hash: "fst (getContentsHash sha256 ?ts') = fst (getContentsHash sha256 ?ts)"
    using getContentsHash_perm by blast
  let ?k = "applyKey sha256 (fst (getContentsHash sha256 ?ts))"
  have inj: "inj_on ?k (set txs)"
    using h by (auto simp: inj_on_def applyKey_def dest: xor_inj)
  have q: "mset (buildAccountTxQueues txs') = mset (buildAccountTxQueues txs)"
    by (rule queues_perm [OF p s])
  note bp = batches_perm [OF q buildAccountTxQueues_nonempty bs(1) bs'(1)]
  have sub: "set (bs ! i) \<subseteq> set txs" if "i < length bs" for i
  proof -
    have "bs ! i \<in> set bs"
      using that by simp
    then have "set (bs ! i) \<subseteq> set (concat bs)"
      by auto
    also have "set (concat bs) = set_mset (mset (concat bs))"
      by simp
    also have "\<dots> = set txs"
      by (simp only: mset_buildBatches [OF buildAccountTxQueues_nonempty bs(1)]
          buildAccountTxQueues_props(4) set_mset_mset)
    finally show ?thesis .
  qed
  have "map (sort_key ?k) bs' = map (sort_key ?k) bs"
  proof (rule nth_equalityI)
    show "length (map (sort_key ?k) bs') = length (map (sort_key ?k) bs)"
      using bp(1) by simp
  next
    fix i
    assume "i < length (map (sort_key ?k) bs')"
    then have i: "i < length bs" using bp(1) by simp
    have "inj_on ?k (set (bs ! i))"
      using inj sub [OF i] by (rule inj_on_subset)
    with bp(2) [OF i] have "sort_key ?k (bs' ! i) = sort_key ?k (bs ! i)"
      by (intro sort_key_mset_inj)
    then show "map (sort_key ?k) bs' ! i = map (sort_key ?k) bs ! i"
      using i bp(1) by simp
  qed
  then show ?thesis
    using bs(2) bs'(2) hash by (simp add: sortBatches_concat)
qed

text \<open>
  C8.  \<open>sortForApply\<close> returns, for every set, a permutation of its transactions in
  which the transactions of each source account are exactly that account's transactions
  in ascending order of sequence number.  It is the concatenation of the batches, each
  sorted by \<open>ApplyTxSorter\<close> (the full hash XORed with the contents hash of the set),
  where batch \<open>i\<close> holds the \<open>i\<close>-th transaction of every account queue that has
  one, and the queue of an account is its transactions sorted by sequence number.  When
  full hashes are distinct and no two transactions of an account share a sequence
  number, the order does not depend on the order in which the set holds its
  transactions.
\<close>

theorem sortForApply_order:
  "(\<exists>retList ts' txBatches.
      sortForApply sha256 ts = Some (retList, ts') \<and>
      mset retList = mset (mTransactions ts) \<and>
      (\<forall>a. filter (\<lambda>t. getSourceID t = a) retList =
             sort_key getSeqNum (filter (\<lambda>t. getSourceID t = a) (mTransactions ts)) \<and>
           sorted (map getSeqNum (filter (\<lambda>t. getSourceID t = a) retList))) \<and>
      buildBatches (buildAccountTxQueues (mTransactions ts)) = Some txBatches \<and>
      (\<forall>i < length txBatches.
         txBatches ! i =
           map (\<lambda>(a, q). q ! i)
             (filter (\<lambda>(a, q). i < length q) (buildAccountTxQueues (mTransactions ts)))) \<and>
      retList =
        concat (map (sort_key (applyKey sha256 (fst (getContentsHash sha256 ts)))) txBatches) \<and>
      (\<forall>b \<in> set txBatches.
         sorted_wrt (\<lambda>x y. \<not> ApplyTxSorter sha256 (fst (getContentsHash sha256 ts)) y x)
           (sort_key (applyKey sha256 (fst (getContentsHash sha256 ts))) b))) \<and>
   (\<forall>(a, q) \<in> set (buildAccountTxQueues (mTransactions ts)).
      q = sort_key getSeqNum (filter (\<lambda>t. getSourceID t = a) (mTransactions ts))) \<and>
   (mset txs' = mset txs \<and> inj_on (getFullHash sha256) (set txs) \<and>
    inj_on (\<lambda>t. (getSourceID t, getSeqNum t)) (set txs) \<longrightarrow>
      map_option fst (sortForApply sha256 (TxSetFrame_fromXDR prev txs')) =
      map_option fst (sortForApply sha256 (TxSetFrame_fromXDR prev txs)))"
proof (intro conjI)
  let ?txs = "mTransactions ts"
  let ?h = "fst (getContentsHash sha256 ts)"
  obtain bs where bs: "buildBatches (buildAccountTxQueues ?txs) = Some bs"
    "sortForApply sha256 ts = Some (sortBatches sha256 bs ts)"
    by (rule sortForApply_struct)
  let ?ret = "concat (map (sort_key (applyKey sha256 ?h)) bs)"
  have ret: "fst (sortBatches sha256 bs ts) = ?ret"
    by (rule sortBatches_concat)
  have m: "mset ?ret = mset ?txs"
  proof -
    have "mset ?ret = mset (concat bs)"
      by (induction bs) simp_all
    then show ?thesis
      by (simp add: mset_buildBatches [OF buildAccountTxQueues_nonempty bs(1)]
          buildAccountTxQueues_props(4))
  qed
  have f: "filter (\<lambda>t. getSourceID t = a) ?ret =
      sort_key getSeqNum (filter (\<lambda>t. getSourceID t = a) ?txs)" for a
    by (rule sortForApply_account_order [OF bs(1)])
  have n: "\<forall>i < length bs. bs ! i =
      map (\<lambda>(a, q). q ! i) (filter (\<lambda>(a, q). i < length q) (buildAccountTxQueues ?txs))"
    using nth_buildBatches [OF buildAccountTxQueues_nonempty bs(1)] by blast
  have "sortForApply sha256 ts = Some (?ret, snd (sortBatches sha256 bs ts))"
    using bs(2) ret by (metis prod.collapse)
  with m f n bs(1) sorted_by_ApplyTxSorter
  show "\<exists>retList ts' txBatches.
      sortForApply sha256 ts = Some (retList, ts') \<and>
      mset retList = mset (mTransactions ts) \<and>
      (\<forall>a. filter (\<lambda>t. getSourceID t = a) retList =
             sort_key getSeqNum (filter (\<lambda>t. getSourceID t = a) (mTransactions ts)) \<and>
           sorted (map getSeqNum (filter (\<lambda>t. getSourceID t = a) retList))) \<and>
      buildBatches (buildAccountTxQueues (mTransactions ts)) = Some txBatches \<and>
      (\<forall>i < length txBatches.
         txBatches ! i =
           map (\<lambda>(a, q). q ! i)
             (filter (\<lambda>(a, q). i < length q) (buildAccountTxQueues (mTransactions ts)))) \<and>
      retList =
        concat (map (sort_key (applyKey sha256 (fst (getContentsHash sha256 ts)))) txBatches) \<and>
      (\<forall>b \<in> set txBatches.
         sorted_wrt (\<lambda>x y. \<not> ApplyTxSorter sha256 (fst (getContentsHash sha256 ts)) y x)
           (sort_key (applyKey sha256 (fst (getContentsHash sha256 ts))) b))"
    by (intro exI [of _ ?ret] exI [of _ "snd (sortBatches sha256 bs ts)"] exI [of _ bs])
       simp
next
  show "\<forall>(a, q) \<in> set (buildAccountTxQueues (mTransactions ts)).
      q = sort_key getSeqNum (filter (\<lambda>t. getSourceID t = a) (mTransactions ts))"
    using buildAccountTxQueues_member(2) by blast
next
  show "mset txs' = mset txs \<and> inj_on (getFullHash sha256) (set txs) \<and>
    inj_on (\<lambda>t. (getSourceID t, getSeqNum t)) (set txs) \<longrightarrow>
      map_option fst (sortForApply sha256 (TxSetFrame_fromXDR prev txs')) =
      map_option fst (sortForApply sha256 (TxSetFrame_fromXDR prev txs))"
    using sortForApply_perm by blast
qed

lemma ex_queues:
  "buildAccountTxQueues [ex_tx300, ex_tx101, ex_tx500] =
     [(1, [ex_tx500, ex_tx300]), (2, [ex_tx101])]"
  by (simp add: buildAccountTxQueues_def ex_tx300_def ex_tx101_def ex_tx500_def)

lemma ex_batches:
  "buildBatches [(1, [ex_tx500, ex_tx300]), (2, [ex_tx101])] =
     Some [[ex_tx500, ex_tx101], [ex_tx300]]"
  by (simp add: buildBatches.simps)

lemma ex_queue_batches:
  "buildBatches (buildAccountTxQueues [ex_tx300, ex_tx101, ex_tx500]) =
     Some [[ex_tx500, ex_tx101], [ex_tx300]]"
  by (simp only: ex_queues ex_batches)

lemma ex_apply:
  "map_option fst (sortForApply ex_sha (TxSetFrame_fromXDR 7 [ex_tx300, ex_tx101, ex_tx500])) =
     Some [ex_tx500, ex_tx101, ex_tx300]"
  by (simp add: sortForApply_def TxSetFrame_fromXDR_def ex_queue_batches)
     (simp add: getContentsHash_def sortForHash_def getFullHash_def applyKey_def Let_def
       ex_sha_def hash_bytes_def ex_tx300_def ex_tx101_def ex_tx500_def upt_rec)

theorem sortForApply_order_witness:
  "mset [ex_tx500, ex_tx300, ex_tx101] = mset [ex_tx300, ex_tx101, ex_tx500] \<and>
   inj_on (getFullHash ex_sha) (set [ex_tx300, ex_tx101, ex_tx500]) \<and>
   inj_on (\<lambda>t. (getSourceID t, getSeqNum t)) (set [ex_tx300, ex_tx101, ex_tx500]) \<and>
   map_option fst (sortForApply ex_sha (TxSetFrame_fromXDR 7 [ex_tx500, ex_tx300, ex_tx101])) =
     map_option fst (sortForApply ex_sha (TxSetFrame_fromXDR 7 [ex_tx300, ex_tx101, ex_tx500])) \<and>
   map_option fst (sortForApply ex_sha (TxSetFrame_fromXDR 7 [ex_tx300, ex_tx101, ex_tx500])) =
     Some [ex_tx500, ex_tx101, ex_tx300] \<and>
   buildAccountTxQueues [ex_tx300, ex_tx101, ex_tx500] =
     [(1, [ex_tx500, ex_tx300]), (2, [ex_tx101])] \<and>
   buildBatches (buildAccountTxQueues [ex_tx300, ex_tx101, ex_tx500]) =
     Some [[ex_tx500, ex_tx101], [ex_tx300]]"
proof -
  have p: "mset [ex_tx500, ex_tx300, ex_tx101] = mset [ex_tx300, ex_tx101, ex_tx500]"
    by simp
  have h: "inj_on (getFullHash ex_sha) (set [ex_tx300, ex_tx101, ex_tx500])"
    by (simp add: getFullHash_def ex_sha_def ex_tx300_def ex_tx101_def ex_tx500_def)
  have s: "inj_on (\<lambda>t. (getSourceID t, getSeqNum t)) (set [ex_tx300, ex_tx101, ex_tx500])"
    by (simp add: ex_tx300_def ex_tx101_def ex_tx500_def)
  from sortForApply_order [of ex_sha "TxSetFrame_fromXDR 7 [ex_tx300, ex_tx101, ex_tx500]"
      "[ex_tx500, ex_tx300, ex_tx101]" "[ex_tx300, ex_tx101, ex_tx500]" 7] p h s
  have "map_option fst (sortForApply ex_sha (TxSetFrame_fromXDR 7 [ex_tx500, ex_tx300, ex_tx101])) =
     map_option fst (sortForApply ex_sha (TxSetFrame_fromXDR 7 [ex_tx300, ex_tx101, ex_tx500]))"
    by blast
  with p h s show ?thesis
    by (simp only: ex_apply ex_queues ex_batches simp_thms)
qed

section \<open>Validity of a transaction set\<close>

lemma checkSeqs_justCheck:
  "checkSeqs chk True q lastSeq st =
     (if chain_valid chk q lastSeq
      then Some (q, st\<lparr> accountFeeMap := fold addFeeBid q (accountFeeMap st) \<rparr>)
      else None)"
  by (induction q arbitrary: lastSeq st) simp_all

lemma checkSeqsAll_justCheck:
  "checkSeqsAll chk True qs st =
     (if \<forall>(a, q) \<in> set qs. chain_valid chk q 0
      then Some (qs, st\<lparr> accountFeeMap :=
                          fold addFeeBid (concat (map snd qs)) (accountFeeMap st) \<rparr>)
      else None)"
proof (induction qs arbitrary: st)
  case Nil
  then show ?case by simp
next
  case (Cons p qs)
  obtain a q where p: "p = (a, q)" by (cases p)
  show ?case
    using p Cons by (simp add: checkSeqs_justCheck)
qed

lemma checkFees_justCheck:
  "checkFees avail True q st =
     (if \<forall>tx \<in> set q. \<not> avail (getFeeSourceID tx) < accountFeeMap st (getFeeSourceID tx)
      then Some st else None)"
  by (induction q) (simp_all add: Let_def)

lemma checkFeesAll_justCheck:
  "checkFeesAll avail True qs st =
     (if \<forall>tx \<in> set (concat (map snd qs)).
           \<not> avail (getFeeSourceID tx) < accountFeeMap st (getFeeSourceID tx)
      then Some st else None)"
proof (induction qs)
  case Nil
  then show ?case by simp
next
  case (Cons p qs)
  obtain a q where p: "p = (a, q)" by (cases p)
  show ?case
    using p Cons by (auto simp: checkFees_justCheck)
qed

lemma feeBidSum_Cons:
  "feeBidSum (tx # txs) a =
     (if getFeeSourceID tx = a then getFeeBid tx else 0) + feeBidSum txs a"
  by (simp add: feeBidSum_def)

lemma feeBidSum_nonneg:
  "\<forall>tx \<in> set txs. 0 \<le> getFeeBid tx \<Longrightarrow> 0 \<le> feeBidSum txs a"
  by (induction txs) (simp_all add: feeBidSum_Cons feeBidSum_def)

lemma fold_addFeeBid:
  assumes "\<forall>tx \<in> set txs. 0 \<le> getFeeBid tx" and "fm a \<le> INT64_MAX"
  shows "fold addFeeBid txs fm a = min INT64_MAX (fm a + feeBidSum txs a)"
  using assms
proof (induction txs arbitrary: fm)
  case Nil
  then show ?case by (simp add: feeBidSum_def)
next
  case (Cons tx txs)
  have nn: "0 \<le> feeBidSum txs a"
    using Cons.prems(1) by (intro feeBidSum_nonneg) simp
  have b: "0 \<le> getFeeBid tx" using Cons.prems(1) by simp
  have le: "addFeeBid tx fm a \<le> INT64_MAX"
    using Cons.prems(2) by (simp add: addFeeBid_def Let_def)
  have "fold addFeeBid txs (addFeeBid tx fm) a =
          min INT64_MAX (addFeeBid tx fm a + feeBidSum txs a)"
    using Cons.IH [of "addFeeBid tx fm"] le Cons.prems(1) by simp
  also have "\<dots> = min INT64_MAX (fm a + feeBidSum (tx # txs) a)"
    using nn b Cons.prems(2) by (auto simp: addFeeBid_def Let_def feeBidSum_Cons)
  finally show ?case by simp
qed

lemma feeBidSum_mset:
  "mset txs' = mset txs \<Longrightarrow> feeBidSum txs' a = feeBidSum txs a"
proof -
  assume "mset txs' = mset txs"
  then have "mset (map getFeeBid (filter (\<lambda>t. getFeeSourceID t = a) txs')) =
             mset (map getFeeBid (filter (\<lambda>t. getFeeSourceID t = a) txs))"
    by simp
  then show ?thesis
    unfolding feeBidSum_def by (metis sum_mset_sum_list)
qed

lemma mset_concat_queues:
  "mset (concat (map snd qs)) = (\<Sum>(a, q)\<leftarrow>qs. mset q)"
  by (induction qs) auto

lemma is_sorted_HashTxSorter:
  "is_sorted (HashTxSorter sha256) txs \<longleftrightarrow> sorted (map (getFullHash sha256) txs)"
proof (induction "HashTxSorter sha256" txs rule: is_sorted.induct)
  case 1
  then show ?case by simp
next
  case (2 x)
  then show ?case by simp
next
  case (3 x y rest)
  then show ?case
    by (fastforce simp: HashTxSorter_def not_less)
qed

text \<open>
  C7 (as amended).  For a set whose fee bids are not negative, \<open>checkValid\<close> returns
  true if and only if (i) the previous ledger hash of the set is the hash of the last
  closed ledger, (ii) the size of the set does not exceed \<open>maxTxSetSize\<close>, the size
  being the number of operations from protocol version 11 on and the number of
  transactions before, (iii) the transactions are in ascending order of full hash,
  (iv) in every account queue (the transactions of a source account in ascending order
  of sequence number) each transaction passes its check, called with the sequence number
  of the transaction before it, or 0 for the first, and (v) for the fee source of every
  transaction, the sum of the fee bids it pays for, capped at \<open>INT64_MAX\<close>, does not
  exceed its available balance.
\<close>

theorem checkValid_iff:
  assumes "\<forall>tx \<in> set (mTransactions ts). 0 \<le> getFeeBid tx"
  shows "checkValid sha256 txCheckValid availableBalance lcl ts \<longleftrightarrow>
     lcl_hash lcl = mPreviousLedgerHash ts \<and>
     (if 11 \<le> ledgerVersion (lcl_header lcl)
      then sizeOp (mTransactions ts) else length (mTransactions ts))
       \<le> maxTxSetSize (lcl_header lcl) \<and>
     sorted (map (getFullHash sha256) (mTransactions ts)) \<and>
     (\<forall>(a, q) \<in> set (buildAccountTxQueues (mTransactions ts)).
        q = sort_key getSeqNum (filter (\<lambda>t. getSourceID t = a) (mTransactions ts)) \<and>
        chain_valid txCheckValid q 0) \<and>
     (\<forall>tx \<in> set (mTransactions ts).
        min INT64_MAX (feeBidSum (mTransactions ts) (getFeeSourceID tx))
          \<le> availableBalance (getFeeSourceID tx))"
proof -
  let ?txs = "mTransactions ts"
  let ?Q = "buildAccountTxQueues ?txs"
  let ?all = "concat (map snd ?Q)"
  have perm: "mset ?all = mset ?txs"
    by (simp add: mset_concat_queues buildAccountTxQueues_props(4))
  then have set_all: "set ?all = set ?txs"
    by (rule mset_eq_setD)
  have nn: "\<forall>tx \<in> set ?all. 0 \<le> getFeeBid tx"
    using assms set_all by simp
  have fee: "fold addFeeBid ?all (\<lambda>a. 0) a = min INT64_MAX (feeBidSum ?txs a)" for a
    using fold_addFeeBid [OF nn, of "\<lambda>a. 0" a] feeBidSum_mset [OF perm, of a]
    by (simp add: INT64_MAX_def)
  have queues: "(\<forall>(a, q) \<in> set ?Q. chain_valid txCheckValid q 0) \<longleftrightarrow>
      (\<forall>(a, q) \<in> set ?Q.
        q = sort_key getSeqNum (filter (\<lambda>t. getSourceID t = a) ?txs) \<and>
        chain_valid txCheckValid q 0)"
    using buildAccountTxQueues_member(2) by blast
  let ?st1 = "\<lparr>accountFeeMap = fold addFeeBid ?all (\<lambda>a. 0), trimmed = [], txSet = ts\<rparr>"
  have first: "checkSeqsAll txCheckValid True ?Q
        \<lparr>accountFeeMap = (\<lambda>a. 0), trimmed = [], txSet = ts\<rparr> =
      (if \<forall>(a, q) \<in> set ?Q. chain_valid txCheckValid q 0 then Some (?Q, ?st1) else None)"
    by (simp add: checkSeqsAll_justCheck)
  have second: "checkFeesAll availableBalance True ?Q ?st1 =
      (if \<forall>tx \<in> set ?txs.
            min INT64_MAX (feeBidSum ?txs (getFeeSourceID tx)) \<le> availableBalance (getFeeSourceID tx)
       then Some ?st1 else None)"
    unfolding checkFeesAll_justCheck set_all
    by (simp only: fee not_less trim_state.simps)
  have "fst (checkOrTrim txCheckValid availableBalance ts [] True) \<longleftrightarrow>
      (\<forall>(a, q) \<in> set ?Q. chain_valid txCheckValid q 0) \<and>
      (\<forall>tx \<in> set ?txs.
        min INT64_MAX (feeBidSum ?txs (getFeeSourceID tx)) \<le> availableBalance (getFeeSourceID tx))"
  proof (cases "\<forall>(a, q) \<in> set ?Q. chain_valid txCheckValid q 0")
    case False
    have "checkOrTrim txCheckValid availableBalance ts [] True = (False, [], ts)"
      unfolding checkOrTrim_def Let_def first
      by (simp only: False if_False option.case)
    with False show ?thesis by (simp only: fst_conv simp_thms)
  next
    case A: True
    show ?thesis
    proof (cases "\<forall>tx \<in> set ?txs.
        min INT64_MAX (feeBidSum ?txs (getFeeSourceID tx)) \<le> availableBalance (getFeeSourceID tx)")
      case True
      have "checkOrTrim txCheckValid availableBalance ts [] True = (True, [], ts)"
        unfolding checkOrTrim_def Let_def first
        by (simp only: if_P [OF A] if_P [OF True] option.case prod.case second
            trim_state.simps)
      with A True show ?thesis by (simp only: fst_conv simp_thms)
    next
      case False
      have "checkOrTrim txCheckValid availableBalance ts [] True = (False, [], ts)"
        unfolding checkOrTrim_def Let_def first
        by (simp only: if_P [OF A] if_not_P [OF False] option.case prod.case second
            trim_state.simps)
      with A False show ?thesis by (simp only: fst_conv simp_thms)
    qed
  qed
  then show ?thesis
    unfolding queues
    by (simp add: checkValid_def size_lh_def sizeTx_def is_sorted_HashTxSorter not_less)
qed


lemma ex_queues_sorted:
  "buildAccountTxQueues [ex_tx500, ex_tx300, ex_tx101] =
     [(1, [ex_tx500, ex_tx300]), (2, [ex_tx101])]"
  by (simp add: buildAccountTxQueues_def ex_tx300_def ex_tx101_def ex_tx500_def)

theorem checkValid_iff_witness:
  "0 \<le> getFeeBid ex_tx500 \<and> 0 \<le> getFeeBid ex_tx300 \<and> 0 \<le> getFeeBid ex_tx101 \<and>
   checkValid ex_sha ex_chk ex_avail ex_lcl20
     (TxSetFrame_fromXDR 7 [ex_tx500, ex_tx300, ex_tx101]) \<and>
   \<not> checkValid ex_sha ex_chk ex_avail ex_lcl20
     (TxSetFrame_fromXDR 7 [ex_tx300, ex_tx500, ex_tx101])"
proof -
  have b: "\<forall>tx \<in> set (mTransactions (TxSetFrame_fromXDR 7 [ex_tx500, ex_tx300, ex_tx101])).
      0 \<le> getFeeBid tx"
    "\<forall>tx \<in> set (mTransactions (TxSetFrame_fromXDR 7 [ex_tx300, ex_tx500, ex_tx101])).
      0 \<le> getFeeBid tx"
    by (simp_all add: TxSetFrame_fromXDR_def ex_tx500_def ex_tx300_def ex_tx101_def)
  have ok: "checkValid ex_sha ex_chk ex_avail ex_lcl20
     (TxSetFrame_fromXDR 7 [ex_tx500, ex_tx300, ex_tx101])"
    unfolding checkValid_iff [OF b(1)]
    by (simp add: TxSetFrame_fromXDR_def ex_queues_sorted ex_lcl20_def ex_lh20_def sizeOp_def
        feeBidSum_def ex_avail_def INT64_MAX_def ex_chk_def getFullHash_def ex_sha_def)
       (simp add: ex_tx500_def ex_tx300_def ex_tx101_def)
  have bad: "\<not> checkValid ex_sha ex_chk ex_avail ex_lcl20
     (TxSetFrame_fromXDR 7 [ex_tx300, ex_tx500, ex_tx101])"
    unfolding checkValid_iff [OF b(2)]
    by (simp add: TxSetFrame_fromXDR_def getFullHash_def ex_sha_def
        ex_tx500_def ex_tx300_def ex_tx101_def)
  from ok bad show ?thesis
    by (simp add: ex_tx500_def ex_tx300_def ex_tx101_def)
qed

text \<open>
  C7 as stated fails at protocol version 10, where the size is counted in transactions:
  a set of one transaction with two operations is valid for \<open>maxTxSetSize = 1\<close>.
\<close>

theorem checkValid_iff_counterexample:
  "checkValid ex_sha ex_chk ex_avail ex_lcl10 (TxSetFrame_fromXDR 7 [ex_tx101]) \<and>
   \<not> sizeOp (mTransactions (TxSetFrame_fromXDR 7 [ex_tx101]))
       \<le> maxTxSetSize (lcl_header ex_lcl10)"
  by (simp add: checkValid_def checkOrTrim_def buildAccountTxQueues_def size_lh_def sizeTx_def
      sizeOp_def TxSetFrame_fromXDR_def ex_lcl10_def ex_lh10_def ex_chk_def ex_avail_def
      ex_tx101_def addFeeBid_def INT64_MAX_def Let_def)

section \<open>Properties of AccountTransactionQueue\<close>

lemma fold_add_numops:
  "fold (\<lambda>tx n. n + getNumOperations tx) xs (a :: uint32) =
     a + sum_list (map getNumOperations xs)"
  by (induction xs arbitrary: a) (simp_all add: add.assoc)

lemma sum_list_numops_sort:
  "sum_list (map getNumOperations (sort_key getSeqNum xs)) =
     (sum_list (map getNumOperations xs) :: uint32)"
proof -
  have "mset (map getNumOperations (sort_key getSeqNum xs)) = mset (map getNumOperations xs)"
    by simp
  then show ?thesis
    by (metis sum_mset_sum_list)
qed

text \<open>
  C10. The constructor establishes the invariant for every non-empty vector (and keeps
  exactly the transactions given); \<open>popTopTx\<close> on a non-empty queue that satisfies the
  invariant removes the front transaction and yields a queue that satisfies it again.
  The counter is a 32-bit unsigned number, and the sum is taken in that arithmetic.
\<close>

theorem AccountTransactionQueue_invariant:
  "(accountTxs \<noteq> [] \<longrightarrow>
      (\<exists>q. newAccountTransactionQueue accountTxs = Inr q \<and> queue_inv q \<and>
           mset (mTxs q) = mset accountTxs)) \<and>
   (queue_inv q0 \<and> mTxs q0 \<noteq> [] \<longrightarrow>
      (\<exists>q'. popTopTx q0 = Inr q' \<and> queue_inv q' \<and> mTxs q' = tl (mTxs q0) \<and>
            mNumOperations q' = mNumOperations q0 - getNumOperations (hd (mTxs q0))))"
proof (intro conjI impI)
  assume "accountTxs \<noteq> []"
  then show "\<exists>q. newAccountTransactionQueue accountTxs = Inr q \<and> queue_inv q \<and>
           mset (mTxs q) = mset accountTxs"
    by (simp add: newAccountTransactionQueue_def queue_inv_def fold_add_numops
        sum_list_numops_sort)
next
  assume a: "queue_inv q0 \<and> mTxs q0 \<noteq> []"
  then obtain tx rest where q: "mTxs q0 = tx # rest"
    by (cases "mTxs q0") auto
  from a q show "\<exists>q'. popTopTx q0 = Inr q' \<and> queue_inv q' \<and> mTxs q' = tl (mTxs q0) \<and>
            mNumOperations q' = mNumOperations q0 - getNumOperations (hd (mTxs q0))"
    by (simp add: popTopTx_def queue_inv_def)
qed

theorem AccountTransactionQueue_invariant_witness:
  "[\<lparr>getEnvelope = [5], getSourceID = 1, getFeeSourceID = 1, getSeqNum = 5,
      getNumOperations = 2, getFeeBid = 200\<rparr>,
    \<lparr>getEnvelope = [3], getSourceID = 1, getFeeSourceID = 1, getSeqNum = 3,
      getNumOperations = 1, getFeeBid = 100\<rparr>] \<noteq> [] \<and>
   newAccountTransactionQueue
     [\<lparr>getEnvelope = [5], getSourceID = 1, getFeeSourceID = 1, getSeqNum = 5,
        getNumOperations = 2, getFeeBid = 200\<rparr>,
      \<lparr>getEnvelope = [3], getSourceID = 1, getFeeSourceID = 1, getSeqNum = 3,
        getNumOperations = 1, getFeeBid = 100\<rparr>] =
     Inr \<lparr>mTxs =
          [\<lparr>getEnvelope = [3], getSourceID = 1, getFeeSourceID = 1, getSeqNum = 3,
             getNumOperations = 1, getFeeBid = 100\<rparr>,
           \<lparr>getEnvelope = [5], getSourceID = 1, getFeeSourceID = 1, getSeqNum = 5,
             getNumOperations = 2, getFeeBid = 200\<rparr>],
          mNumOperations = 3\<rparr> \<and>
   queue_inv
     \<lparr>mTxs =
        [\<lparr>getEnvelope = [3], getSourceID = 1, getFeeSourceID = 1, getSeqNum = 3,
           getNumOperations = 1, getFeeBid = 100\<rparr>,
         \<lparr>getEnvelope = [5], getSourceID = 1, getFeeSourceID = 1, getSeqNum = 5,
           getNumOperations = 2, getFeeBid = 200\<rparr>],
        mNumOperations = 3\<rparr> \<and>
   popTopTx
     \<lparr>mTxs =
        [\<lparr>getEnvelope = [3], getSourceID = 1, getFeeSourceID = 1, getSeqNum = 3,
           getNumOperations = 1, getFeeBid = 100\<rparr>,
         \<lparr>getEnvelope = [5], getSourceID = 1, getFeeSourceID = 1, getSeqNum = 5,
           getNumOperations = 2, getFeeBid = 200\<rparr>],
        mNumOperations = 3\<rparr> =
     Inr \<lparr>mTxs =
          [\<lparr>getEnvelope = [5], getSourceID = 1, getFeeSourceID = 1, getSeqNum = 5,
             getNumOperations = 2, getFeeBid = 200\<rparr>],
          mNumOperations = 2\<rparr>"
  using AccountTransactionQueue_invariant
    [of "[\<lparr>getEnvelope = [5], getSourceID = 1, getFeeSourceID = 1, getSeqNum = 5,
            getNumOperations = 2, getFeeBid = 200\<rparr>,
          \<lparr>getEnvelope = [3], getSourceID = 1, getFeeSourceID = 1, getSeqNum = 3,
            getNumOperations = 1, getFeeBid = 100\<rparr>]"
        "\<lparr>mTxs =
           [\<lparr>getEnvelope = [3], getSourceID = 1, getFeeSourceID = 1, getSeqNum = 3,
              getNumOperations = 1, getFeeBid = 100\<rparr>,
            \<lparr>getEnvelope = [5], getSourceID = 1, getFeeSourceID = 1, getSeqNum = 5,
              getNumOperations = 2, getFeeBid = 200\<rparr>],
           mNumOperations = 3\<rparr>"]
  by (simp add: newAccountTransactionQueue_def popTopTx_def queue_inv_def)

section \<open>Surge pricing\<close>

lemma pq_scan_mem: "pq_scan cmp b xs = Inr r \<Longrightarrow> r \<in> set (b # xs)"
  by (induction xs arbitrary: b) (auto split: sum.splits if_splits)

lemma pq_top_mem: "pq_top cmp heap = Inr cur \<Longrightarrow> cur \<in> set heap"
  using pq_scan_mem [of cmp] by (auto simp: pq_top_def split: list.splits)

lemma pq_scan_key:
  assumes "\<And>x y. x \<in> set (b # xs) \<Longrightarrow> y \<in> set (b # xs) \<Longrightarrow> cmp x y = Inr (k x < k y)"
  shows "\<exists>r. pq_scan cmp b xs = Inr r \<and> r \<in> set (b # xs) \<and>
           (\<forall>x \<in> set (b # xs). (k x :: 'k :: linorder) \<le> k r)"
  using assms
proof (induction xs arbitrary: b)
  case Nil
  then show ?case by simp
next
  case (Cons y ys)
  define b' where "b' = (if k b < k y then y else b)"
  have c: "cmp b y = Inr (k b < k y)" using Cons.prems by simp
  have "\<exists>r. pq_scan cmp b' ys = Inr r \<and> r \<in> set (b' # ys) \<and> (\<forall>x \<in> set (b' # ys). k x \<le> k r)"
    by (rule Cons.IH) (use Cons.prems in \<open>auto simp: b'_def\<close>)
  then obtain r where r: "pq_scan cmp b' ys = Inr r" "r \<in> set (b' # ys)"
    "k b' \<le> k r" "\<forall>x \<in> set ys. k x \<le> k r"
    by auto
  have "k b \<le> k b'" "k y \<le> k b'" by (auto simp: b'_def)
  with r(3) have "k b \<le> k r" "k y \<le> k r"
    by (meson order_trans)+
  moreover have "pq_scan cmp b (y # ys) = Inr r"
    using r(1) by (simp add: c b'_def)
  moreover have "r \<in> set (b # y # ys)"
    using r(2) by (auto simp: b'_def split: if_splits)
  ultimately show ?case
    using r(4) by simp
qed

lemma map_of_remove1:
  assumes "distinct (map fst heap)" "(a, q) \<in> set heap"
  shows "map_of (remove1 (a, q) heap) = (map_of heap)(a := None)"
  using assms
proof (induction heap)
  case Nil
  then show ?case by simp
next
  case (Cons p heap)
  show ?case
  proof (cases "p = (a, q)")
    case True
    with Cons.prems have "a \<notin> fst ` set heap" by auto
    then have "map_of heap a = None" by (simp add: map_of_eq_None_iff)
    with True show ?thesis by (auto simp: fun_eq_iff)
  next
    case False
    with Cons.prems have m: "(a, q) \<in> set heap" by simp
    with Cons.prems have "fst p \<noteq> a" by (cases p) (auto simp: image_iff)
    with Cons False m show ?thesis by (cases p) (auto simp: fun_eq_iff)
  qed
qed

lemma keys_remove1: "fst ` set (remove1 p heap) \<subseteq> fst ` set heap"
  using set_remove1_subset [of p heap] by auto

lemma remaining_pop:
  assumes "distinct (map fst heap)" "(a, q) \<in> set heap"
  shows "remaining (pq_pop (a, q) heap) b = (if b = a then [] else remaining heap b)"
  using map_of_remove1 [OF assms] by (simp add: remaining_def pq_pop_def)

lemma remaining_push:
  assumes "a \<notin> fst ` set heap"
  shows "remaining (pq_push (a, r) heap) b = (if b = a then r else remaining heap b)"
proof -
  have "map_of heap a = None" using assms by (simp add: map_of_eq_None_iff)
  then show ?thesis
    by (auto simp: remaining_def pq_push_def map_add_def split: option.splits)
qed

lemma remaining_mem:
  assumes "distinct (map fst heap)" "(a, q) \<in> set heap"
  shows "remaining heap a = q"
  using assms by (simp add: remaining_def)

lemma pop_props:
  assumes "nonempty_queues heap" "distinct (map fst heap)" "owned_queues heap" "(a, q) \<in> set heap"
  shows "nonempty_queues (pq_pop (a, q) heap)" "distinct (map fst (pq_pop (a, q) heap))"
    "owned_queues (pq_pop (a, q) heap)" "a \<notin> fst ` set (pq_pop (a, q) heap)"
    "set (pq_pop (a, q) heap) = set heap - {(a, q)}"
proof -
  have sub: "set (remove1 (a, q) heap) \<subseteq> set heap" by (rule set_remove1_subset)
  show "nonempty_queues (pq_pop (a, q) heap)"
    using assms(1) sub by (auto simp: nonempty_queues_def pq_pop_def)
  show "distinct (map fst (pq_pop (a, q) heap))"
    using assms(2) by (simp add: pq_pop_def distinct_map distinct_remove1)
       (meson inj_on_diff)
  show "owned_queues (pq_pop (a, q) heap)"
    using assms(3) sub by (auto simp: owned_queues_def pq_pop_def)
  have "map_of (remove1 (a, q) heap) a = None"
    using map_of_remove1 [OF assms(2,4)] by simp
  then show "a \<notin> fst ` set (pq_pop (a, q) heap)"
    by (simp add: map_of_eq_None_iff pq_pop_def)
  from assms(2) have "distinct heap" by (simp add: distinct_map)
  then show "set (pq_pop (a, q) heap) = set heap - {(a, q)}"
    by (simp add: pq_pop_def)
qed

lemma sound_pop: "sound_bids heap \<Longrightarrow> sound_bids (pq_pop p heap)"
  using set_remove1_subset [of p heap] by (auto simp: sound_bids_def pq_pop_def)

lemma sound_push:
  assumes "sound_bids heap" "\<forall>t \<in> set r. 0 \<le> getFeeBid t \<and> getNumOperations t \<noteq> 0"
  shows "sound_bids (pq_push (a, r) heap)"
  using assms by (auto simp: sound_bids_def pq_push_def)

lemma push_props:
  assumes "nonempty_queues heap" "distinct (map fst heap)" "owned_queues heap"
    and "a \<notin> fst ` set heap" "r \<noteq> []" "\<forall>t \<in> set r. getSourceID t = a"
  shows "nonempty_queues (pq_push (a, r) heap)" "distinct (map fst (pq_push (a, r) heap))"
    "owned_queues (pq_push (a, r) heap)"
  using assms by (auto simp: nonempty_queues_def owned_queues_def pq_push_def)

lemma surgeLoop_stop:
  "opsLeft = 0 \<or> surgeQueue = [] \<Longrightarrow>
   surgeLoop cmp opsOf (opsLeft, surgeQueue, acc) = Inr acc"
  by (subst surgeLoop.simps) auto

lemma surgeLoop_accept:
  assumes "0 < opsLeft" "pq_top cmp surgeQueue = Inr (a, t # rest)" "opsOf t \<le> opsLeft"
  shows "surgeLoop cmp opsOf (opsLeft, surgeQueue, acc) =
         surgeLoop cmp opsOf
           (opsLeft - opsOf t,
            (if rest \<noteq> [] then pq_push (a, rest) (pq_pop (a, t # rest) surgeQueue)
             else pq_pop (a, t # rest) surgeQueue),
            acc @ [t])"
proof -
  from assms(2) have "surgeQueue \<noteq> []" by (auto simp: pq_top_def)
  with assms show ?thesis
    by (subst surgeLoop.simps) (simp add: Let_def)
qed

lemma surgeLoop_clear:
  assumes "0 < opsLeft" "pq_top cmp surgeQueue = Inr (a, t # rest)" "\<not> opsOf t \<le> opsLeft"
  shows "surgeLoop cmp opsOf (opsLeft, surgeQueue, acc) =
         surgeLoop cmp opsOf (opsLeft, pq_pop (a, t # rest) surgeQueue, acc)"
proof -
  from assms(2) have "surgeQueue \<noteq> []" by (auto simp: pq_top_def)
  with assms show ?thesis
    by (subst surgeLoop.simps) (simp add: Let_def)
qed

lemma surge_inv_accept:
  assumes inv: "surge_inv opsOf orig budget (opsLeft, heap, acc)"
    and mem: "(a, t # rest) \<in> set heap" and le: "opsOf t \<le> opsLeft"
  shows "surge_inv opsOf orig budget
           (opsLeft - opsOf t,
            (if rest \<noteq> [] then pq_push (a, rest) (pq_pop (a, t # rest) heap)
             else pq_pop (a, t # rest) heap),
            acc @ [t])"
proof -
  from inv have ne: "nonempty_queues heap" and d: "distinct (map fst heap)"
    and o: "owned_queues heap" and sb: "sound_bids heap"
    and pre: "\<And>b. prefix (filter (\<lambda>t. getSourceID t = b) acc @ remaining heap b) (orig b)"
    and sum: "sum_list (map opsOf acc) + opsLeft = budget"
    by (simp_all add: surge_inv_def)
  note pp = pop_props [OF ne d o mem]
  from o mem have src: "getSourceID t = a" "\<forall>t \<in> set rest. getSourceID t = a"
    by (auto simp: owned_queues_def)
  from sb mem have bids: "\<forall>t \<in> set rest. 0 \<le> getFeeBid t \<and> getNumOperations t \<noteq> 0"
    by (auto simp: sound_bids_def)
  let ?heap' = "if rest \<noteq> [] then pq_push (a, rest) (pq_pop (a, t # rest) heap)
                else pq_pop (a, t # rest) heap"
  have rem: "remaining ?heap' b = (if b = a then rest else remaining heap b)" for b
    using remaining_push [OF pp(4), of rest b] remaining_pop [OF d mem, of b]
    by auto
  have props: "nonempty_queues ?heap'" "distinct (map fst ?heap')" "owned_queues ?heap'"
    using pp push_props [OF pp(1,2,3,4) _ src(2)] by auto
  have sound: "sound_bids ?heap'"
    using sound_pop [OF sb] sound_push [OF sound_pop [OF sb] bids] by simp
  have "prefix (filter (\<lambda>t. getSourceID t = b) (acc @ [t]) @ remaining ?heap' b) (orig b)" for b
    using pre [of b] remaining_mem [OF d mem] src(1) by (auto simp: rem)
  moreover have "sum_list (map opsOf (acc @ [t])) + (opsLeft - opsOf t) = budget"
    using sum le by simp
  ultimately show ?thesis
    using props sound unfolding surge_inv_def by simp
qed

lemma surge_inv_clear:
  assumes inv: "surge_inv opsOf orig budget (opsLeft, heap, acc)"
    and mem: "(a, q) \<in> set heap"
  shows "surge_inv opsOf orig budget (opsLeft, pq_pop (a, q) heap, acc)"
proof -
  from inv have ne: "nonempty_queues heap" and d: "distinct (map fst heap)"
    and o: "owned_queues heap" and sb: "sound_bids heap"
    and pre: "\<And>b. prefix (filter (\<lambda>t. getSourceID t = b) acc @ remaining heap b) (orig b)"
    and sum: "sum_list (map opsOf acc) + opsLeft = budget"
    by (simp_all add: surge_inv_def)
  note pp = pop_props [OF ne d o mem]
  have "prefix (filter (\<lambda>t. getSourceID t = b) acc @ remaining (pq_pop (a, q) heap) b) (orig b)"
    for b
    using pre [of b] by (auto simp: remaining_pop [OF d mem] dest: append_prefixD)
  with pp(1-4) sum sound_pop [OF sb] show ?thesis
    unfolding surge_inv_def by simp
qed

lemma getMinFee_pos: "getNumOperations tx \<noteq> 0 \<Longrightarrow> 0 < getMinFee lh tx"
proof -
  assume "getNumOperations tx \<noteq> 0"
  then have "0 < uint (getNumOperations tx)"
    by (simp add: uint_0_iff less_le)
  then show ?thesis
    by (simp add: getMinFee_def getMinInclusionFee_def)
qed

lemma SurgeCompare_key:
  assumes "0 \<le> getFeeBid t1" "getNumOperations t1 \<noteq> 0"
    and "0 \<le> getFeeBid t2" "getNumOperations t2 \<noteq> 0"
  shows "SurgeCompare sha256 mSeed lh (Some (t1 # r1)) (Some (t2 # r2)) =
           Inr (surge_key sha256 mSeed lh t1 < surge_key sha256 mSeed lh t2)"
proof -
  let ?m1 = "getMinFee lh t1" and ?m2 = "getMinFee lh t2"
  have p: "0 < ?m1" "0 < ?m2"
    using assms getMinFee_pos by simp_all
  then have m: "0 < real_of_int ?m1" "0 < real_of_int ?m2"
    by simp_all
  have lt: "real_of_int (getFeeBid t1) / real_of_int ?m1 < real_of_int (getFeeBid t2) / real_of_int ?m2
        \<longleftrightarrow> getFeeBid t1 * ?m2 < getFeeBid t2 * ?m1"
  proof -
    have "real_of_int (getFeeBid t1) / real_of_int ?m1 < real_of_int (getFeeBid t2) / real_of_int ?m2
        \<longleftrightarrow> real_of_int (getFeeBid t1) * real_of_int ?m2 < real_of_int (getFeeBid t2) * real_of_int ?m1"
      using m by (simp add: field_simps)
    also have "\<dots> \<longleftrightarrow> getFeeBid t1 * ?m2 < getFeeBid t2 * ?m1"
      by (simp flip: of_int_mult)
    finally show ?thesis .
  qed
  have eq: "real_of_int (getFeeBid t1) / real_of_int ?m1 = real_of_int (getFeeBid t2) / real_of_int ?m2
        \<longleftrightarrow> getFeeBid t1 * ?m2 = getFeeBid t2 * ?m1"
  proof -
    have "real_of_int (getFeeBid t1) / real_of_int ?m1 = real_of_int (getFeeBid t2) / real_of_int ?m2
        \<longleftrightarrow> real_of_int (getFeeBid t1) * real_of_int ?m2 = real_of_int (getFeeBid t2) * real_of_int ?m1"
      using m by (simp add: field_simps)
    also have "\<dots> \<longleftrightarrow> getFeeBid t1 * ?m2 = getFeeBid t2 * ?m1"
      by (simp flip: of_int_mult)
    finally show ?thesis .
  qed
  have b: "bigMultiply (getFeeBid t1) ?m2 = Inr (getFeeBid t1 * ?m2)"
    "bigMultiply (getFeeBid t2) ?m1 = Inr (getFeeBid t2 * ?m1)"
    using assms(1,3) p by (simp_all add: bigMultiply_def)
  show ?thesis
    unfolding surge_key_def less_prod_def fst_conv snd_conv lt less_eq_real_def eq
    by (auto simp: b lessThanXored_def)
qed

lemma pq_top_highest:
  assumes ne: "nonempty_queues heap" and sb: "sound_bids heap" and h: "heap \<noteq> []"
  shows "\<exists>cur. pq_top (\<lambda>q1 q2. SurgeCompare sha256 mSeed lh (Some (snd q1)) (Some (snd q2))) heap
                  = Inr cur \<and> cur \<in> set heap \<and>
           (\<forall>(b, q) \<in> set heap.
              surge_key sha256 mSeed lh (hd q) \<le> surge_key sha256 mSeed lh (hd (snd cur)))"
proof -
  let ?cmp = "\<lambda>q1 q2. SurgeCompare sha256 mSeed lh (Some (snd q1)) (Some (snd q2))"
  let ?k = "\<lambda>p. surge_key sha256 mSeed lh (hd (snd p))"
  have front: "\<exists>t r. snd x = t # r \<and> 0 \<le> getFeeBid t \<and> getNumOperations t \<noteq> 0"
    if "x \<in> set heap" for x
  proof -
    from that ne have "snd x \<noteq> []" by (cases x) (auto simp: nonempty_queues_def)
    then obtain t r where s: "snd x = t # r" by (cases "snd x") auto
    have "\<forall>t \<in> set (snd x). 0 \<le> getFeeBid t \<and> getNumOperations t \<noteq> 0"
      using that sb unfolding sound_bids_def by (cases x) auto
    with s show ?thesis by simp
  qed
  from h obtain b xs where heap: "heap = b # xs" by (cases heap) auto
  have key: "?cmp x y = Inr (?k x < ?k y)" if "x \<in> set (b # xs)" "y \<in> set (b # xs)" for x y
  proof -
    from front [of x] that(1) heap obtain t1 r1
      where x: "snd x = t1 # r1" "0 \<le> getFeeBid t1" "getNumOperations t1 \<noteq> 0" by auto
    from front [of y] that(2) heap obtain t2 r2
      where y: "snd y = t2 # r2" "0 \<le> getFeeBid t2" "getNumOperations t2 \<noteq> 0" by auto
    show ?thesis
      using SurgeCompare_key [OF x(2,3) y(2,3), of sha256 mSeed lh r1 r2]
      by (simp add: x(1) y(1))
  qed
  from pq_scan_key [of b xs ?cmp ?k, OF key]
  obtain r where "pq_scan ?cmp b xs = Inr r" "r \<in> set (b # xs)" "\<forall>x \<in> set (b # xs). ?k x \<le> ?k r"
    by blast
  then show ?thesis
    by (auto simp: pq_top_def heap)
qed

lemma surgeLoop_select:
  assumes "cmp = (\<lambda>q1 q2. SurgeCompare sha256 mSeed lh (Some (snd q1)) (Some (snd q2)))"
    and "surge_inv opsOf orig budget s"
  shows "\<exists>res. surgeLoop cmp opsOf s = Inr (snd (snd s) @ res) \<and>
           surge_select (surge_key sha256 mSeed lh) opsOf (fst s) (set (fst (snd s))) res \<and>
           (\<forall>a. prefix (filter (\<lambda>t. getSourceID t = a) (snd (snd s) @ res)) (orig a)) \<and>
           sum_list (map opsOf (snd (snd s) @ res)) \<le> budget"
  using assms
proof (induction cmp opsOf s rule: surgeLoop.induct)
  case (1 cmp opsOf opsLeft heap acc)
  note cmp = 1(3) and inv = 1(4)
  let ?key = "surge_key sha256 mSeed lh"
  from inv have ne: "nonempty_queues heap" and d: "distinct (map fst heap)"
    and o: "owned_queues heap" and sb: "sound_bids heap"
    by (simp_all add: surge_inv_def)
  show ?case
  proof (cases "0 < opsLeft \<and> heap \<noteq> []")
    case False
    then have "surgeLoop cmp opsOf (opsLeft, heap, acc) = Inr acc"
      by (intro surgeLoop_stop) auto
    moreover have "surge_select ?key opsOf opsLeft (set heap) []"
      using False by (intro surge_select.stop) auto
    moreover have "prefix (filter (\<lambda>t. getSourceID t = a) acc) (orig a)" for a
      using inv by (auto simp: surge_inv_def dest: append_prefixD)
    moreover have "sum_list (map opsOf acc) \<le> budget"
      using inv by (auto simp: surge_inv_def)
    ultimately show ?thesis
      by (intro exI [of _ "[]"]) (simp only: fst_conv snd_conv append_Nil2 simp_thms)
  next
    case True
    from pq_top_highest [OF ne sb, of sha256 mSeed lh] True cmp
    obtain cur where top: "pq_top cmp heap = Inr cur" and mem: "cur \<in> set heap"
      and hi: "\<forall>(b, q) \<in> set heap. ?key (hd q) \<le> ?key (hd (snd cur))"
      by auto
    obtain a q where cur: "cur = (a, q)" by (cases cur)
    from ne mem cur obtain t rest where q: "q = t # rest"
      by (cases q) (auto simp: nonempty_queues_def)
    have s: "snd cur = t # rest" using cur q by simp
    have m: "(a, t # rest) \<in> set heap" using mem cur q by simp
    have hi': "\<forall>(b, q) \<in> set heap. ?key (hd q) \<le> ?key t"
      using hi by (simp add: s)
    note pp = pop_props [OF ne d o m]
    show ?thesis
    proof (cases "opsOf t \<le> opsLeft")
      case le: True
      let ?h = "if rest \<noteq> [] then pq_push (fst cur, rest) (pq_pop cur heap)
                else pq_pop cur heap"
      from surge_inv_accept [OF inv m le]
      have "surge_inv opsOf orig budget (opsLeft - opsOf t, ?h, acc @ [t])"
        by (simp only: cur q fst_conv)
      from 1(1) [OF True top s refl le cmp this]
      have "\<exists>res. surgeLoop cmp opsOf (opsLeft - opsOf t, ?h, acc @ [t]) = Inr (acc @ t # res) \<and>
        surge_select ?key opsOf (opsLeft - opsOf t) (set ?h) res \<and>
        (\<forall>a. prefix (filter (\<lambda>t. getSourceID t = a) (acc @ t # res)) (orig a)) \<and>
        sum_list (map opsOf (acc @ t # res)) \<le> budget"
        by (simp only: fst_conv snd_conv append_assoc append_Cons append_Nil)
      then obtain res where IH: "surgeLoop cmp opsOf (opsLeft - opsOf t, ?h, acc @ [t]) = Inr (acc @ t # res)"
        "surge_select ?key opsOf (opsLeft - opsOf t) (set ?h) res"
        "\<forall>a. prefix (filter (\<lambda>t. getSourceID t = a) (acc @ t # res)) (orig a)"
        "sum_list (map opsOf (acc @ t # res)) \<le> budget"
        by blast
      have seth: "set ?h = set heap - {(a, t # rest)} \<union> (if rest = [] then {} else {(a, rest)})"
        using pp(5) by (auto simp: cur q pq_push_def)
      have pos: "0 < opsLeft" using True by simp
      have sel: "surge_select ?key opsOf opsLeft (set heap) (t # res)"
        using IH(2) unfolding seth by (rule surge_select.accept [of opsLeft a t rest "set heap" ?key opsOf, OF pos m hi' le])
      have "surgeLoop cmp opsOf (opsLeft, heap, acc) =
          surgeLoop cmp opsOf (opsLeft - opsOf t, ?h, acc @ [t])"
        using surgeLoop_accept [of opsLeft cmp heap a t rest opsOf acc] True top le
        by (simp add: cur q)
      with IH(1) have "surgeLoop cmp opsOf (opsLeft, heap, acc) = Inr (acc @ t # res)"
        by (simp only:)
      with sel IH(3,4) show ?thesis
        by (intro exI [of _ "t # res"]) (simp only: fst_conv snd_conv simp_thms)
    next
      case gt: False
      from surge_inv_clear [OF inv m]
      have "surge_inv opsOf orig budget (opsLeft, pq_pop cur heap, acc)"
        by (simp only: cur q)
      from 1(2) [OF True top s refl gt cmp this]
      have "\<exists>res. surgeLoop cmp opsOf (opsLeft, pq_pop cur heap, acc) = Inr (acc @ res) \<and>
        surge_select ?key opsOf opsLeft (set (pq_pop cur heap)) res \<and>
        (\<forall>a. prefix (filter (\<lambda>t. getSourceID t = a) (acc @ res)) (orig a)) \<and>
        sum_list (map opsOf (acc @ res)) \<le> budget"
        by (simp only: fst_conv snd_conv)
      then obtain res where IH: "surgeLoop cmp opsOf (opsLeft, pq_pop cur heap, acc) = Inr (acc @ res)"
        "surge_select ?key opsOf opsLeft (set (pq_pop cur heap)) res"
        "\<forall>a. prefix (filter (\<lambda>t. getSourceID t = a) (acc @ res)) (orig a)"
        "sum_list (map opsOf (acc @ res)) \<le> budget"
        by blast
      have pos: "0 < opsLeft" using True by simp
      have sel: "surge_select ?key opsOf opsLeft (set heap) res"
        using IH(2) unfolding cur q pp(5) by (rule surge_select.clear [of opsLeft a t rest "set heap" ?key opsOf, OF pos m hi' gt])
      have "surgeLoop cmp opsOf (opsLeft, heap, acc) =
          surgeLoop cmp opsOf (opsLeft, pq_pop cur heap, acc)"
        using surgeLoop_clear [of opsLeft cmp heap a t rest opsOf acc] True top gt
        by (simp add: cur q)
      with IH(1) have "surgeLoop cmp opsOf (opsLeft, heap, acc) = Inr (acc @ res)"
        by (simp only:)
      with sel IH(3,4) show ?thesis
        by (intro exI [of _ res]) (simp only: fst_conv snd_conv simp_thms)
    qed
  qed
qed

lemma set_buildAccountTxQueues: "set (buildAccountTxQueues txs) = account_queues txs"
proof -
  have "p \<in> set (buildAccountTxQueues txs) \<longleftrightarrow> p \<in> account_queues txs" for p
  proof (cases p)
    case (Pair a q)
    have "(a, q) \<in> set (buildAccountTxQueues txs) \<longleftrightarrow> map_of (buildAccountTxQueues txs) a = Some q"
      using buildAccountTxQueues_props(1) [of txs] by simp
    also have "\<dots> \<longleftrightarrow> (a, q) \<in> account_queues txs"
      by (auto simp: buildAccountTxQueues_props(3) account_queues_def)
    finally show ?thesis using Pair by simp
  qed
  then show ?thesis by blast
qed

text \<open>
  C2 (as amended).  For a set whose transactions have a fee bid that is not negative and
  at least one operation: \<open>surgePricingFilter\<close> leaves the set alone unless its size
  exceeds the budget, the size being the operation count from protocol version 11 on and
  100 times the number of transactions before.  Otherwise it keeps the transactions that
  its loop accepts, sorted for the hash, and these are a selection as the claim describes
  it from the account queues of the set, where the priority is the ratio of fee bid to
  least fee (then the full hash XORed with the seed) and the charge for a transaction is
  its operation count from version 11 on and 100 before: while the budget is positive
  and a queue is left, the queue with the front of highest priority is popped; a front
  whose charge is within the budget is accepted, charged and its queue pushed back if
  not empty, and otherwise the whole queue is dropped.  So the accepted transactions of
  every account are a prefix of its queue in sequence order, and their charges are within
  the budget.
\<close>

theorem surgePricingFilter_select:
  assumes bids: "\<forall>tx \<in> set (mTransactions ts). 0 \<le> getFeeBid tx \<and> getNumOperations tx \<noteq> 0"
  shows
   "let charge = (\<lambda>tx. if 11 \<le> ledgerVersion lh then unat (getNumOperations tx) else 100);
        size = (if 11 \<le> ledgerVersion lh then sizeOp (mTransactions ts)
                else length (mTransactions ts) * 100)
    in if maxOps < size
       then \<exists>updatedSet.
              surgeLoop (\<lambda>q1 q2. SurgeCompare sha256 mSeed lh (Some (snd q1)) (Some (snd q2)))
                charge (maxOps, buildAccountTxQueues (mTransactions ts), []) = Inr updatedSet \<and>
              surgePricingFilter sha256 mSeed maxOps lh ts =
                Inr (sortForHash sha256 (ts\<lparr>mTransactions := updatedSet\<rparr>)) \<and>
              surge_select (surge_key sha256 mSeed lh) charge maxOps
                (account_queues (mTransactions ts)) updatedSet \<and>
              (\<forall>a. prefix (filter (\<lambda>t. getSourceID t = a) updatedSet)
                     (sort_key getSeqNum (filter (\<lambda>t. getSourceID t = a) (mTransactions ts)))) \<and>
              sum_list (map charge updatedSet) \<le> maxOps
       else surgePricingFilter sha256 mSeed maxOps lh ts = Inr ts"
proof -
  let ?txs = "mTransactions ts"
  let ?charge = "\<lambda>tx. if 11 \<le> ledgerVersion lh then unat (getNumOperations tx) else 100"
  let ?size = "if 11 \<le> ledgerVersion lh then sizeOp ?txs else length ?txs * 100"
  let ?cmp = "\<lambda>q1 q2. SurgeCompare sha256 mSeed lh (Some (snd q1)) (Some (snd q2))"
  let ?Q = "buildAccountTxQueues ?txs"
  have charge: "opsOf_surge lh = ?charge"
    by (rule ext) (simp add: opsOf_surge_def MAX_OPS_PER_TX_def)
  have size: "(if 11 \<le> ledgerVersion lh then sizeOp ?txs else sizeTx ?txs * MAX_OPS_PER_TX) = ?size"
    by (simp add: sizeTx_def MAX_OPS_PER_TX_def)
  have filter: "surgePricingFilter sha256 mSeed maxOps lh ts =
      (if maxOps < ?size
       then (case surgeLoop ?cmp ?charge (maxOps, ?Q, []) of
               Inl e \<Rightarrow> Inl e
             | Inr updatedSet \<Rightarrow> Inr (sortForHash sha256 (ts\<lparr>mTransactions := updatedSet\<rparr>)))
       else Inr ts)"
    unfolding surgePricingFilter_def Let_def charge size by (rule refl)
  show ?thesis
  proof (cases "maxOps < ?size")
    case False
    with filter show ?thesis by (simp only: Let_def if_False)
  next
    case True
    have rem: "remaining ?Q a = sort_key getSeqNum (filter (\<lambda>t. getSourceID t = a) ?txs)" for a
    proof (cases "a \<in> getSourceID ` set ?txs")
      case True
      then show ?thesis by (simp add: remaining_def buildAccountTxQueues_props(3))
    next
      case False
      then have "filter (\<lambda>t. getSourceID t = a) ?txs = []"
        by (auto simp: filter_empty_conv)
      with False show ?thesis by (simp add: remaining_def buildAccountTxQueues_props(3))
    qed
    have sound: "sound_bids ?Q"
      unfolding sound_bids_def
    proof (clarify)
      fix a q t
      assume "(a, q) \<in> set ?Q" "t \<in> set q"
      with buildAccountTxQueues_member(2) [of a q ?txs] have "t \<in> set ?txs" by simp
      with bids show "0 \<le> getFeeBid t \<and> getNumOperations t \<noteq> 0" by simp
    qed
    have "surge_inv ?charge (remaining ?Q) maxOps (maxOps, ?Q, [])"
      by (simp add: surge_inv_def buildAccountTxQueues_nonempty buildAccountTxQueues_props(1)
          buildAccountTxQueues_owned sound)
    from surgeLoop_select [OF refl this, of sha256 mSeed lh]
    have "\<exists>res. surgeLoop ?cmp ?charge (maxOps, ?Q, []) = Inr res \<and>
           surge_select (surge_key sha256 mSeed lh) ?charge maxOps (account_queues ?txs) res \<and>
           (\<forall>a. prefix (filter (\<lambda>t. getSourceID t = a) res)
                  (sort_key getSeqNum (filter (\<lambda>t. getSourceID t = a) ?txs))) \<and>
           sum_list (map ?charge res) \<le> maxOps"
      by (simp only: fst_conv snd_conv append_Nil set_buildAccountTxQueues rem)
    then obtain res where res: "surgeLoop ?cmp ?charge (maxOps, ?Q, []) = Inr res"
      "surge_select (surge_key sha256 mSeed lh) ?charge maxOps (account_queues ?txs) res"
      "\<forall>a. prefix (filter (\<lambda>t. getSourceID t = a) res)
             (sort_key getSeqNum (filter (\<lambda>t. getSourceID t = a) ?txs))"
      "sum_list (map ?charge res) \<le> maxOps"
      by blast
    have "surgePricingFilter sha256 mSeed maxOps lh ts =
            Inr (sortForHash sha256 (ts\<lparr>mTransactions := res\<rparr>))"
      using True by (simp only: filter res(1) if_True sum.case)
    with res True show ?thesis
      unfolding Let_def by (simp only: if_True) blast
  qed
qed

lemma ex_surge_queues:
  "buildAccountTxQueues [ex_sa, ex_sa2, ex_sb, ex_sc] =
     [(11, [ex_sa, ex_sa2]), (12, [ex_sb]), (13, [ex_sc])]"
  "buildAccountTxQueues [ex_sa, ex_sb, ex_sc] = [(11, [ex_sa]), (12, [ex_sb]), (13, [ex_sc])]"
  by (simp_all add: buildAccountTxQueues_def ex_sa_def ex_sa2_def ex_sb_def ex_sc_def)

lemma ex_surge_cmp:
  "baseFee lh = 100 \<Longrightarrow> SurgeCompare ex_sha 0 lh (Some [ex_sa, ex_sa2]) (Some [ex_sb]) = Inr False"
  "baseFee lh = 100 \<Longrightarrow> SurgeCompare ex_sha 0 lh (Some [ex_sa, ex_sa2]) (Some [ex_sc]) = Inr False"
  "baseFee lh = 100 \<Longrightarrow> SurgeCompare ex_sha 0 lh (Some [ex_sa]) (Some [ex_sb]) = Inr False"
  "baseFee lh = 100 \<Longrightarrow> SurgeCompare ex_sha 0 lh (Some [ex_sa]) (Some [ex_sc]) = Inr False"
  "baseFee lh = 100 \<Longrightarrow> SurgeCompare ex_sha 0 lh (Some [ex_sb]) (Some [ex_sc]) = Inr False"
  "baseFee lh = 100 \<Longrightarrow> SurgeCompare ex_sha 0 lh (Some [ex_sb]) (Some [ex_sa2]) = Inr True"
  "baseFee lh = 100 \<Longrightarrow> SurgeCompare ex_sha 0 lh (Some [ex_sa2]) (Some [ex_sc]) = Inr False"
  "baseFee lh = 100 \<Longrightarrow> SurgeCompare ex_sha 0 lh (Some [ex_sc]) (Some [ex_sa2]) = Inr True"
  by (simp_all add: getMinFee_def getMinInclusionFee_def bigMultiply_def ex_sa_def ex_sa2_def
      ex_sb_def ex_sc_def Let_def)

lemma ex_ops:
  "unat (getNumOperations ex_sa) = 1" "unat (getNumOperations ex_sa2) = 2"
  "unat (getNumOperations ex_sb) = 1" "unat (getNumOperations ex_sc) = 99"
  "11 \<le> ledgerVersion ex_lh20" "\<not> 11 \<le> ledgerVersion ex_lh10"
  by (simp_all add: ex_lh20_def ex_lh10_def ex_sa_def ex_sa2_def ex_sb_def ex_sc_def)

lemma ex_neq:
  "ex_sa \<noteq> ex_sb" "ex_sa \<noteq> ex_sc" "ex_sb \<noteq> ex_sc" "ex_sa2 \<noteq> ex_sb" "ex_sa2 \<noteq> ex_sc"
  "ex_sa \<noteq> ex_sa2"
  by (simp_all add: ex_sa_def ex_sa2_def ex_sb_def ex_sc_def)

lemma ex_bf: "baseFee ex_lh20 = 100" "baseFee ex_lh10 = 100"
  by (simp_all add: ex_lh20_def ex_lh10_def)

lemma ex_bids:
  "0 \<le> getFeeBid ex_sa \<and> getNumOperations ex_sa \<noteq> 0"
  "0 \<le> getFeeBid ex_sa2 \<and> getNumOperations ex_sa2 \<noteq> 0"
  "0 \<le> getFeeBid ex_sb \<and> getNumOperations ex_sb \<noteq> 0"
  "0 \<le> getFeeBid ex_sc \<and> getNumOperations ex_sc \<noteq> 0"
  by (simp_all add: ex_sa_def ex_sa2_def ex_sb_def ex_sc_def)

lemma ex_surge_loop20:
  "surgeLoop (\<lambda>q1 q2. SurgeCompare ex_sha 0 ex_lh20 (Some (snd q1)) (Some (snd q2)))
     (\<lambda>tx. unat (getNumOperations tx))
     (2, [(11, [ex_sa, ex_sa2]), (12, [ex_sb]), (13, [ex_sc])], []) =
   Inr [ex_sa, ex_sb]"
  by (simp add: surgeLoop.simps pq_top_def pq_pop_def pq_push_def ex_surge_cmp [OF ex_bf(1)]
      ex_ops ex_neq del: SurgeCompare.simps)

lemma ex_surge_loop10:
  "surgeLoop (\<lambda>q1 q2. SurgeCompare ex_sha 0 ex_lh10 (Some (snd q1)) (Some (snd q2)))
     (\<lambda>tx. 100)
     (100, [(11, [ex_sa]), (12, [ex_sb]), (13, [ex_sc])], []) =
   Inr [ex_sa]"
  by (simp add: surgeLoop.simps pq_top_def pq_pop_def pq_push_def ex_surge_cmp [OF ex_bf(2)]
      ex_ops ex_neq del: SurgeCompare.simps)

inductive_cases surge_select_NilE: "surge_select p c b Q []"

inductive_cases surge_select_ConsE: "surge_select p c b Q (t # res)"

lemma ex_not_selected:
  "\<not> surge_select p (unat \<circ> getNumOperations) 100
       {(11, [ex_sa]), (12, [ex_sb]), (13, [ex_sc])} [ex_sa]"
proof
  assume "surge_select p (unat \<circ> getNumOperations) 100
       {(11, [ex_sa]), (12, [ex_sb]), (13, [ex_sc])} [ex_sa]"
  then show False
  proof (rule surge_select_ConsE)
    fix a rest
    assume m: "(a, ex_sa # rest) \<in> {(11, [ex_sa]), (12, [ex_sb]), (13, [ex_sc])}"
      and sub: "surge_select p (unat \<circ> getNumOperations) (100 - (unat \<circ> getNumOperations) ex_sa)
         ({(11, [ex_sa]), (12, [ex_sb]), (13, [ex_sc])} - {(a, ex_sa # rest)} \<union>
          (if rest = [] then {} else {(a, rest)})) []"
    from m ex_neq have "a = 11" "rest = []" by auto
    with sub have "surge_select p (unat \<circ> getNumOperations) 99 {(12, [ex_sb]), (13, [ex_sc])} []"
      by (simp add: ex_ops insert_Diff_if)
    then show False
      by (rule surge_select_NilE) (auto simp: ex_ops)
  next
    fix a t rest
    assume "(a, t # rest) \<in> {(11, [ex_sa]), (12, [ex_sb]), (13, [ex_sc])}"
      and "\<not> (unat \<circ> getNumOperations) t \<le> 100"
    then show False by (auto simp: ex_ops)
  qed
qed

theorem surgePricingFilter_select_witness:
  "(0 \<le> getFeeBid ex_sa \<and> getNumOperations ex_sa \<noteq> 0) \<and>
   (0 \<le> getFeeBid ex_sa2 \<and> getNumOperations ex_sa2 \<noteq> 0) \<and>
   (0 \<le> getFeeBid ex_sb \<and> getNumOperations ex_sb \<noteq> 0) \<and>
   (0 \<le> getFeeBid ex_sc \<and> getNumOperations ex_sc \<noteq> 0) \<and>
   11 \<le> ledgerVersion ex_lh20 \<and>
   2 < sizeOp (mTransactions (TxSetFrame_fromXDR 7 [ex_sa, ex_sa2, ex_sb, ex_sc])) \<and>
   surgePricingFilter ex_sha 0 2 ex_lh20 (TxSetFrame_fromXDR 7 [ex_sa, ex_sa2, ex_sb, ex_sc]) =
     Inr (sortForHash ex_sha
            ((TxSetFrame_fromXDR 7 [ex_sa, ex_sa2, ex_sb, ex_sc])\<lparr>mTransactions := [ex_sa, ex_sb]\<rparr>)) \<and>
   surge_select (surge_key ex_sha 0 ex_lh20)
     (\<lambda>tx. if 11 \<le> ledgerVersion ex_lh20 then unat (getNumOperations tx) else 100) 2
     (account_queues (mTransactions (TxSetFrame_fromXDR 7 [ex_sa, ex_sa2, ex_sb, ex_sc])))
     [ex_sa, ex_sb] \<and>
   \<not> 1000 < sizeOp (mTransactions (TxSetFrame_fromXDR 7 [ex_sa, ex_sa2, ex_sb, ex_sc])) \<and>
   surgePricingFilter ex_sha 0 1000 ex_lh20 (TxSetFrame_fromXDR 7 [ex_sa, ex_sa2, ex_sb, ex_sc]) =
     Inr (TxSetFrame_fromXDR 7 [ex_sa, ex_sa2, ex_sb, ex_sc])"
proof -
  let ?ts = "TxSetFrame_fromXDR 7 [ex_sa, ex_sa2, ex_sb, ex_sc]"
  let ?charge = "\<lambda>tx. unat (getNumOperations tx)"
  have tx: "mTransactions ?ts = [ex_sa, ex_sa2, ex_sb, ex_sc]"
    by (simp add: TxSetFrame_fromXDR_def)
  have size: "sizeOp [ex_sa, ex_sa2, ex_sb, ex_sc] = 103"
    by (simp add: sizeOp_def ex_sa_def ex_sa2_def ex_sb_def ex_sc_def)
  have bids: "\<forall>tx \<in> set (mTransactions ?ts). 0 \<le> getFeeBid tx \<and> getNumOperations tx \<noteq> 0"
    using ex_bids by (simp add: tx)
  from surgePricingFilter_select [of ?ts ex_lh20 2 ex_sha 0, OF bids]
  have "\<exists>updatedSet.
      surgeLoop (\<lambda>q1 q2. SurgeCompare ex_sha 0 ex_lh20 (Some (snd q1)) (Some (snd q2))) ?charge
        (2, [(11, [ex_sa, ex_sa2]), (12, [ex_sb]), (13, [ex_sc])], []) = Inr updatedSet \<and>
      surgePricingFilter ex_sha 0 2 ex_lh20 ?ts =
        Inr (sortForHash ex_sha (?ts\<lparr>mTransactions := updatedSet\<rparr>)) \<and>
      surge_select (surge_key ex_sha 0 ex_lh20) ?charge 2 (account_queues (mTransactions ?ts))
        updatedSet"
    unfolding Let_def tx size ex_surge_queues by (simp add: ex_ops(5)) blast
  then have a: "surgePricingFilter ex_sha 0 2 ex_lh20 ?ts =
        Inr (sortForHash ex_sha (?ts\<lparr>mTransactions := [ex_sa, ex_sb]\<rparr>)) \<and>
      surge_select (surge_key ex_sha 0 ex_lh20) ?charge 2 (account_queues (mTransactions ?ts))
        [ex_sa, ex_sb]"
    unfolding ex_surge_loop20 by blast
  from surgePricingFilter_select [of ?ts ex_lh20 1000 ex_sha 0, OF bids]
  have b: "surgePricingFilter ex_sha 0 1000 ex_lh20 ?ts = Inr ?ts"
    unfolding Let_def tx size by (simp add: ex_ops(5))
  from a b show ?thesis
    using ex_bids ex_ops(5) by (simp add: tx size)
qed

text \<open>
  C2 as stated fails at protocol version 10, where every transaction is charged 100
  operations.  With a budget of 100 and three accounts with one transaction each, of 1, 1
  and 99 operations, the program accepts the first only; by the claim, which charges a
  transaction its own operation count, the second fits the 99 operations that are left
  and has to be accepted too.
\<close>

theorem surgePricingFilter_select_counterexample:
  "100 < sizeOp (mTransactions (TxSetFrame_fromXDR 7 [ex_sa, ex_sb, ex_sc])) \<and>
   surgePricingFilter ex_sha 0 100 ex_lh10 (TxSetFrame_fromXDR 7 [ex_sa, ex_sb, ex_sc]) =
     Inr (sortForHash ex_sha
            ((TxSetFrame_fromXDR 7 [ex_sa, ex_sb, ex_sc])\<lparr>mTransactions := [ex_sa]\<rparr>)) \<and>
   \<not> surge_select (surge_key ex_sha 0 ex_lh10) (unat \<circ> getNumOperations) 100
       (account_queues (mTransactions (TxSetFrame_fromXDR 7 [ex_sa, ex_sb, ex_sc]))) [ex_sa]"
proof -
  let ?ts = "TxSetFrame_fromXDR 7 [ex_sa, ex_sb, ex_sc]"
  have tx: "mTransactions ?ts = [ex_sa, ex_sb, ex_sc]"
    by (simp add: TxSetFrame_fromXDR_def)
  have size: "sizeOp [ex_sa, ex_sb, ex_sc] = 101"
    by (simp add: sizeOp_def ex_sa_def ex_sb_def ex_sc_def)
  have charge: "opsOf_surge ex_lh10 = (\<lambda>tx. 100)"
    by (rule ext) (simp add: opsOf_surge_def MAX_OPS_PER_TX_def ex_ops)
  have "surgePricingFilter ex_sha 0 100 ex_lh10 ?ts =
     Inr (sortForHash ex_sha (?ts\<lparr>mTransactions := [ex_sa]\<rparr>))"
    unfolding surgePricingFilter_def tx ex_surge_queues charge ex_surge_loop10
    by (simp add: ex_lh10_def sizeTx_def MAX_OPS_PER_TX_def)
  moreover have "account_queues [ex_sa, ex_sb, ex_sc] =
      {(11, [ex_sa]), (12, [ex_sb]), (13, [ex_sc])}"
    unfolding set_buildAccountTxQueues [symmetric] ex_surge_queues by simp
  ultimately show ?thesis
    by (simp add: tx size ex_not_selected)
qed

text \<open>A negative fee bid makes the comparison, and with it the filter, fail.\<close>

lemma ex_surge_negative:
  "surgePricingFilter ex_sha 0 1 ex_lh20 (TxSetFrame_fromXDR 7 [ex_sa, ex_sneg]) =
     Inl ReleaseAssert"
proof -
  have q: "buildAccountTxQueues [ex_sa, ex_sneg] = [(11, [ex_sa]), (12, [ex_sneg])]"
    by (simp add: buildAccountTxQueues_def ex_sa_def ex_sneg_def)
  have c: "SurgeCompare ex_sha 0 ex_lh20 (Some [ex_sa]) (Some [ex_sneg]) = Inl ReleaseAssert"
    by (simp add: bigMultiply_def getMinFee_def getMinInclusionFee_def ex_sa_def ex_sneg_def
        ex_lh20_def)
  have s: "sizeOp [ex_sa, ex_sneg] = 2"
    by (simp add: sizeOp_def ex_sa_def ex_sneg_def)
  show ?thesis
    unfolding surgePricingFilter_def
    by (simp add: TxSetFrame_fromXDR_def q s ex_ops(5) surgeLoop.simps pq_top_def c
        del: SurgeCompare.simps)
qed

section \<open>Expired entries in the footprint\<close>

lemma addReads_append:
  "addReads env (xs @ ys) st =
     (case addReads env xs st of
        Threw e \<Rightarrow> Threw e
      | ReturnedFalse c \<Rightarrow> ReturnedFalse c
      | Continue st1 \<Rightarrow> addReads env ys st1)"
  by (induction xs arbitrary: st) (simp_all split: outcome.splits)

lemma doApply_gather_append:
  "doApply_gather env ro rw = addReads env (ro @ rw) emptyGather"
  by (simp add: doApply_gather_def addReads_append)

lemma addRead_expired_persistent:
  assumes a: "entries env lk = Some le" "isSorobanEntry le"
    and b: "entries env (getExpirationKey env lk) = Some e"
    and c: "expirationLedgerSeq e < header_ledgerSeq env"
    and d: "\<not> isTemporaryEntry lk"
  shows "addRead env lk st = ReturnedFalse INVOKE_HOST_FUNCTION_ENTRY_EXPIRED"
proof -
  have l: "\<not> isLive e (header_ledgerSeq env)" using c by (simp add: isLive_def)
  show ?thesis
    unfolding addRead_def Let_def
    by (simp only: a b l d option.case if_True if_False not_not simp_thms)
qed

lemma addRead_absent:
  assumes "entries env lk = None"
  shows "addRead env lk st =
     (let m = noteReadEntry (isCodeKey lk) (of_nat (lk_xdr_size lk)) 0 (metrics st) in
      if resources_readBytes env < mLedgerReadByte m
      then ReturnedFalse INVOKE_HOST_FUNCTION_RESOURCE_LIMIT_EXCEEDED
      else Continue (st\<lparr> metrics := m \<rparr>))"
  unfolding addRead_def Let_def
  by (simp only: assms option.case)

lemma addRead_expired_temporary:
  assumes a: "entries env lk = Some le" "isSorobanEntry le"
    and b: "entries env (getExpirationKey env lk) = Some e"
    and c: "expirationLedgerSeq e < header_ledgerSeq env"
    and d: "isTemporaryEntry lk"
  shows "addRead env lk st =
     (let m = noteReadEntry (isCodeKey lk) (of_nat (lk_xdr_size lk)) 0 (metrics st) in
      if resources_readBytes env < mLedgerReadByte m
      then ReturnedFalse INVOKE_HOST_FUNCTION_RESOURCE_LIMIT_EXCEEDED
      else Continue (st\<lparr> metrics := m \<rparr>))"
proof -
  have l: "\<not> isLive e (header_ledgerSeq env)" using c by (simp add: isLive_def)
  show ?thesis
    unfolding addRead_def Let_def
    by (simp only: a b l d option.case if_True if_False not_not simp_thms)
qed

lemma addRead_without:
  assumes a: "entries env lk = Some le" "isSorobanEntry le"
    and b: "entries env (getExpirationKey env lk) = Some e"
    and c: "expirationLedgerSeq e < header_ledgerSeq env"
    and d: "isTemporaryEntry lk"
  shows "addRead env lk st = addRead (env\<lparr> entries := (entries env)(lk := None) \<rparr>) lk st"
proof -
  let ?env = "env\<lparr> entries := (entries env)(lk := None) \<rparr>"
  have n: "entries ?env lk = None" by simp
  have r: "resources_readBytes ?env = resources_readBytes env" by simp
  show ?thesis
    by (simp only: addRead_expired_temporary [OF a b c d] addRead_absent [OF n] r)
qed

lemma addRead_expired_bufs:
  assumes a: "entries env lk = Some le" "isSorobanEntry le"
    and b: "entries env (getExpirationKey env lk) = Some e"
    and c: "expirationLedgerSeq e < header_ledgerSeq env"
    and d: "isTemporaryEntry lk"
    and s: "addRead env lk st = Continue st'"
  shows "ledgerEntryCxxBufs st' = ledgerEntryCxxBufs st \<and>
         expirationEntryCxxBufs st' = expirationEntryCxxBufs st"
proof -
  define m where "m = noteReadEntry (isCodeKey lk) (of_nat (lk_xdr_size lk)) 0 (metrics st)"
  have "addRead env lk st =
      (if resources_readBytes env < mLedgerReadByte m
       then ReturnedFalse INVOKE_HOST_FUNCTION_RESOURCE_LIMIT_EXCEEDED
       else Continue (st\<lparr> metrics := m \<rparr>))"
    unfolding m_def by (simp only: addRead_expired_temporary [OF a b c d] Let_def)
  with s have "st' = st\<lparr> metrics := m \<rparr>"
    by (cases "resources_readBytes env < mLedgerReadByte m") simp_all
  then show ?thesis by simp
qed

lemma doApply_gather_at:
  assumes fp: "footprint_readOnly @ footprint_readWrite = pre @ lk # post"
    and pre: "addReads env pre emptyGather = Continue st"
  shows "doApply_gather env footprint_readOnly footprint_readWrite =
           (case addRead env lk st of
              Threw x \<Rightarrow> Threw x
            | ReturnedFalse c \<Rightarrow> ReturnedFalse c
            | Continue st' \<Rightarrow> addReads env post st')"
  by (simp add: doApply_gather_append fp addReads_append pre)

text \<open>
  C9.  Let the gathering of the footprint (read-only keys, then read-write keys) reach
  a key whose entry is a contract entry with an expiration entry whose expiration ledger
  is below the ledger sequence number of the header.  If the key is temporary, the step
  for this key is the step for an absent entry: nothing is added to the buffers that go
  to the host, and gathering goes on from there.  Otherwise \<open>doApply\<close> returns false
  with \<open>INVOKE_HOST_FUNCTION_ENTRY_EXPIRED\<close>, before the host is called.
\<close>

theorem doApply_expired:
  assumes fp: "footprint_readOnly @ footprint_readWrite = pre @ lk # post"
    and pre: "addReads env pre emptyGather = Continue st"
    and le: "entries env lk = Some le" "isSorobanEntry le"
    and ex: "entries env (getExpirationKey env lk) = Some e"
    and old: "expirationLedgerSeq e < header_ledgerSeq env"
  shows "if isTemporaryEntry lk
         then addRead env lk st = addRead (env\<lparr> entries := (entries env)(lk := None) \<rparr>) lk st \<and>
              (\<forall>st'. addRead env lk st = Continue st' \<longrightarrow>
                 ledgerEntryCxxBufs st' = ledgerEntryCxxBufs st \<and>
                 expirationEntryCxxBufs st' = expirationEntryCxxBufs st) \<and>
              doApply_gather env footprint_readOnly footprint_readWrite =
                (case addRead env lk st of
                   Threw x \<Rightarrow> Threw x
                 | ReturnedFalse c \<Rightarrow> ReturnedFalse c
                 | Continue st' \<Rightarrow> addReads env post st')
         else doApply_gather env footprint_readOnly footprint_readWrite =
                ReturnedFalse INVOKE_HOST_FUNCTION_ENTRY_EXPIRED"
proof (cases "isTemporaryEntry lk")
  case True
  from True addRead_without [OF le ex old True] addRead_expired_bufs [OF le ex old True]
    doApply_gather_at [OF fp pre]
  show ?thesis by (simp only: if_True) blast
next
  case False
  have "doApply_gather env footprint_readOnly footprint_readWrite =
          ReturnedFalse INVOKE_HOST_FUNCTION_ENTRY_EXPIRED"
    by (simp only: doApply_gather_at [OF fp pre]
        addRead_expired_persistent [OF le ex old False] outcome.case)
  with False show ?thesis by (simp only: if_False)
qed

lemma ex_entries:
  "entries ex_env ex_ka = Some ex_account"
  "entries ex_env ex_kp = Some ex_data"
  "entries ex_env ex_kt = Some ex_data"
  "entries ex_env (getExpirationKey ex_env ex_kp) = Some ex_expired"
  "entries ex_env (getExpirationKey ex_env ex_kt) = Some ex_expired"
  by (simp_all add: ex_env_def ex_ka_def ex_kp_def ex_kt_def ex_expirationKey_def)

lemma ex_kinds:
  "\<not> isSorobanEntry ex_account" "isSorobanEntry ex_data"
  "\<not> isTemporaryEntry ex_kp" "isTemporaryEntry ex_kt"
  "\<not> isCodeKey ex_ka" "\<not> isCodeKey ex_kt"
  "expirationLedgerSeq ex_expired < header_ledgerSeq ex_env"
  by (simp_all add: isSorobanEntry_def isTemporaryEntry_def isCodeKey_def ex_account_def
      ex_data_def ex_kp_def ex_kt_def ex_ka_def ex_expired_def ex_env_def)

lemma ex_budget: "resources_readBytes ex_env = 1000"
  by (simp add: ex_env_def)

lemma ex_pre: "addReads ex_env [ex_ka] emptyGather = Continue ex_st"
proof -
  have "addRead ex_env ex_ka emptyGather = Continue ex_st"
    unfolding addRead_def Let_def
    apply (simp only: ex_entries ex_kinds option.case if_False ex_budget)
    apply (simp add: ex_account_def ex_ka_def emptyGather_def emptyMetrics_def noteReadEntry_def
        ex_st_def)
    done
  then show ?thesis by simp
qed

lemma ex_temporary: "addRead ex_env ex_kt ex_st = Continue ex_st2"
proof -
  have "addRead ex_env ex_kt ex_st =
     (let m = noteReadEntry (isCodeKey ex_kt) (of_nat (lk_xdr_size ex_kt)) 0 (metrics ex_st) in
      if resources_readBytes ex_env < mLedgerReadByte m
      then ReturnedFalse INVOKE_HOST_FUNCTION_RESOURCE_LIMIT_EXCEEDED
      else Continue (ex_st\<lparr> metrics := m \<rparr>))"
    by (rule addRead_expired_temporary [OF ex_entries(3) ex_kinds(2) ex_entries(5) ex_kinds(7) ex_kinds(4)])
  also have "\<dots> = Continue ex_st2"
    by (simp add: isCodeKey_def Let_def ex_budget ex_kt_def ex_st_def ex_st2_def noteReadEntry_def)
  finally show ?thesis .
qed

theorem doApply_expired_witness:
  "addReads ex_env [ex_ka] emptyGather = Continue ex_st \<and>
   entries ex_env ex_kp = Some ex_data \<and> entries ex_env ex_kt = Some ex_data \<and>
   isSorobanEntry ex_data \<and>
   entries ex_env (getExpirationKey ex_env ex_kp) = Some ex_expired \<and>
   entries ex_env (getExpirationKey ex_env ex_kt) = Some ex_expired \<and>
   expirationLedgerSeq ex_expired < header_ledgerSeq ex_env \<and>
   \<not> isTemporaryEntry ex_kp \<and> isTemporaryEntry ex_kt \<and>
   doApply_gather ex_env [ex_ka] [ex_kp, ex_kt] =
     ReturnedFalse INVOKE_HOST_FUNCTION_ENTRY_EXPIRED \<and>
   addRead (ex_env\<lparr> entries := (entries ex_env)(ex_kt := None) \<rparr>) ex_kt ex_st =
     Continue ex_st2 \<and>
   doApply_gather ex_env [ex_ka, ex_kt] [] = Continue ex_st2"
proof -
  have p: "doApply_gather ex_env [ex_ka] [ex_kp, ex_kt] =
             ReturnedFalse INVOKE_HOST_FUNCTION_ENTRY_EXPIRED"
    using doApply_expired [of "[ex_ka]" "[ex_kp, ex_kt]" "[ex_ka]" ex_kp "[ex_kt]" ex_env ex_st
        ex_data ex_expired, OF _ ex_pre ex_entries(2) ex_kinds(2) ex_entries(4) ex_kinds(7)]
    by (simp add: ex_kinds)
  have t: "addRead (ex_env\<lparr> entries := (entries ex_env)(ex_kt := None) \<rparr>) ex_kt ex_st =
             Continue ex_st2 \<and>
           doApply_gather ex_env [ex_ka, ex_kt] [] = Continue ex_st2"
    using doApply_expired [of "[ex_ka, ex_kt]" "[]" "[ex_ka]" ex_kt "[]" ex_env ex_st
        ex_data ex_expired, OF _ ex_pre ex_entries(3) ex_kinds(2) ex_entries(5) ex_kinds(7)]
    by (simp add: ex_kinds ex_temporary)
  from p t show ?thesis
    by (simp only: ex_pre ex_entries ex_kinds simp_thms)
qed

end
